theory Spec2Isabelle
  imports Main "HOL-Library.Product_Lexorder" "HOL-Library.AList" "HOL-Library.Multiset"
begin

section \<open>Python strings\<close>

text \<open>
  A Python \<^verbatim>\<open>str\<close> is a sequence of Unicode code points, so a string is modelled as a
  list of code points (natural numbers) and not as a list of 8-bit characters: the line
  normaliser works on U+200E, U+00A0 and U+202F, which are single characters of the source.
  \<open>u\<close> turns an ASCII literal into such a string.
\<close>

type_synonym ustr = "nat list"

definition cp :: "char \<Rightarrow> nat" where
  "cp c = of_char c"

definition u :: "string \<Rightarrow> ustr" where
  "u s = map cp s"

text \<open>
  \<^verbatim>\<open>str.isspace\<close> for one character, which is also what \<^verbatim>\<open>str.strip()\<close> removes and what
  \<^verbatim>\<open>\s\<close> matches in a \<^verbatim>\<open>str\<close> pattern: the characters of general category Zs or of
  bidirectional class WS, B or S.
\<close>

definition isspace :: "nat \<Rightarrow> bool" where
  "isspace c \<longleftrightarrow>
     (9 \<le> c \<and> c \<le> 13) \<or> (28 \<le> c \<and> c \<le> 32) \<or> c = 133 \<or> c = 160 \<or> c = 5760
     \<or> (8192 \<le> c \<and> c \<le> 8202) \<or> c = 8232 \<or> c = 8233 \<or> c = 8239 \<or> c = 8287
     \<or> c = 12288"

definition lstrip :: "ustr \<Rightarrow> ustr" where
  "lstrip s = dropWhile isspace s"

definition rstrip :: "ustr \<Rightarrow> ustr" where
  "rstrip s = rev (dropWhile isspace (rev s))"

definition strip :: "ustr \<Rightarrow> ustr" where
  "strip s = rstrip (lstrip s)"

text \<open>
  \<^verbatim>\<open>s.replace(old, new)\<close>: the occurrences of \<open>old\<close> are found from the left and do not
  overlap. \<open>skip\<close> counts the characters of a found occurrence that are still to be passed
  over. With an empty \<open>old\<close>, Python puts \<open>new\<close> before every character and at the end.
\<close>

fun replace_from :: "ustr \<Rightarrow> ustr \<Rightarrow> nat \<Rightarrow> ustr \<Rightarrow> ustr" where
  "replace_from old new skip [] = []"
| "replace_from old new skip (c # cs) =
     (if 0 < skip then replace_from old new (skip - 1) cs
      else if take (length old) (c # cs) = old
           then new @ replace_from old new (length old - 1) cs
           else c # replace_from old new 0 cs)"

definition replace :: "ustr \<Rightarrow> ustr \<Rightarrow> ustr \<Rightarrow> ustr" where
  "replace old new s =
     (if old = [] then new @ concat (map (\<lambda>c. c # new) s) else replace_from old new 0 s)"

text \<open>\<^verbatim>\<open>sub in s\<close> for strings: \<open>sub\<close> occurs in \<open>s\<close> as a contiguous slice.\<close>

fun contains :: "ustr \<Rightarrow> ustr \<Rightarrow> bool" where
  "contains sub [] = (sub = [])"
| "contains sub (c # cs) = (take (length sub) (c # cs) = sub \<or> contains sub cs)"

section \<open>Line normaliser\<close>

text \<open>
  Line 176 of the source:
  \<^verbatim>\<open>line = raw.replace(LRM, "").replace(NBSP, " ").replace(NNBSP, " ").strip()\<close>
  where LRM is U+200E (8206), NBSP is U+00A0 (160) and NNBSP is U+202F (8239).
\<close>

definition normalize_line :: "ustr \<Rightarrow> ustr" where
  "normalize_line raw = strip (replace [8239] [32] (replace [160] [32] (replace [8206] [] raw)))"


section \<open>The Python runtime\<close>

text \<open>
  What the program takes from the interpreter and its Unicode database and not from its
  own text is a parameter of the model, so that every theorem holds whatever these tables
  are:
  \<^item> \<open>isdecimal\<close>: the characters \<^verbatim>\<open>\d\<close> matches (category Nd), \<open>digit_value\<close> their value
    for \<^verbatim>\<open>int()\<close>;
  \<^item> \<open>isword\<close>: the characters \<^verbatim>\<open>\w\<close> matches;
  \<^item> \<open>ci_eq p c\<close>: under \<^verbatim>\<open>re.IGNORECASE\<close>, the pattern character \<open>p\<close> matches \<open>c\<close>;
  \<^item> \<open>lower\<close>, \<open>upper\<close>: \<^verbatim>\<open>str.lower()\<close>, \<^verbatim>\<open>str.upper()\<close>;
  \<^item> \<open>set_order\<close>: the order in which a \<^verbatim>\<open>set\<close> of strings is iterated, given its elements
    in the order they were added.
\<close>

record pyrt =
  isdecimal :: "nat \<Rightarrow> bool"
  digit_value :: "nat \<Rightarrow> nat"
  isword :: "nat \<Rightarrow> bool"
  ci_eq :: "nat \<Rightarrow> nat \<Rightarrow> bool"
  lower :: "ustr \<Rightarrow> ustr"
  upper :: "ustr \<Rightarrow> ustr"
  set_order :: "ustr list \<Rightarrow> ustr list"

text \<open>
  \<open>ascii_rt\<close> is the runtime restricted to ASCII: on a text of ASCII characters it
  computes what CPython computes. It is used to evaluate the model on concrete ASCII inputs.
\<close>

definition ascii_digit :: "nat \<Rightarrow> bool" where
  "ascii_digit c \<longleftrightarrow> 48 \<le> c \<and> c \<le> 57"

definition ascii_upper :: "nat \<Rightarrow> bool" where
  "ascii_upper c \<longleftrightarrow> 65 \<le> c \<and> c \<le> 90"

definition ascii_lower :: "nat \<Rightarrow> bool" where
  "ascii_lower c \<longleftrightarrow> 97 \<le> c \<and> c \<le> 122"

definition ascii_tolower :: "nat \<Rightarrow> nat" where
  "ascii_tolower c = (if ascii_upper c then c + 32 else c)"

definition ascii_toupper :: "nat \<Rightarrow> nat" where
  "ascii_toupper c = (if ascii_lower c then c - 32 else c)"

definition ascii_rt :: pyrt where
  "ascii_rt = \<lparr>
     isdecimal = ascii_digit,
     digit_value = (\<lambda>c. c - 48),
     isword = (\<lambda>c. ascii_digit c \<or> ascii_upper c \<or> ascii_lower c \<or> c = 95),
     ci_eq = (\<lambda>p c. ascii_tolower p = ascii_tolower c),
     lower = map ascii_tolower,
     upper = map ascii_toupper,
     set_order = (\<lambda>xs. xs) \<rparr>"

section \<open>Regular expressions\<close>

text \<open>
  The fragment of Python's \<^verbatim>\<open>re\<close> that the program's patterns are written in: a character
  of a class, a class repeated \<^verbatim>\<open>{min,max}\<close> greedily or lazily, sequence, alternation, an
  optional group, a capturing group, \<^verbatim>\<open>^\<close> and \<^verbatim>\<open>$\<close>.
\<close>

datatype rx =
    Cls "nat \<Rightarrow> bool"
  | Rep "nat \<Rightarrow> bool" nat "nat option" bool
  | Seq rx rx
  | Alt rx rx
  | Opt rx
  | Grp nat rx
  | Bol
  | Eol
  | Eps

text \<open>
  A matcher state is the position in the subject, the rest of the subject from there, and
  the groups captured so far.
\<close>

type_synonym mstate = "nat \<times> ustr \<times> (nat \<rightharpoonup> ustr)"

text \<open>
  The numbers of repetitions a repeated class can take at the front of \<open>s\<close>, in the order
  the backtracking matcher tries them: the longest first when greedy, the shortest first
  when lazy.
\<close>

definition rep_counts :: "(nat \<Rightarrow> bool) \<Rightarrow> nat \<Rightarrow> nat option \<Rightarrow> bool \<Rightarrow> ustr \<Rightarrow> nat list" where
  "rep_counts p mn mx greedy s =
     (let avail = length (takeWhile p s);
          hi = (case mx of None \<Rightarrow> avail | Some m \<Rightarrow> min m avail);
          ks = [mn ..< Suc hi]
      in if greedy then rev ks else ks)"

text \<open>
  \<open>runs r st\<close> lists every way \<open>r\<close> matches at \<open>st\<close>, in the order in which a backtracking
  matcher finds them; the head of the list is the match Python reports.
  \<^verbatim>\<open>$\<close> without \<^verbatim>\<open>re.MULTILINE\<close> matches at the end and before a newline that ends the
  subject; \<^verbatim>\<open>^\<close> matches at position 0.
\<close>

fun runs :: "rx \<Rightarrow> mstate \<Rightarrow> mstate list" where
  "runs (Cls p) (i, s, g) =
     (case s of [] \<Rightarrow> [] | c # cs \<Rightarrow> if p c then [(Suc i, cs, g)] else [])"
| "runs (Rep p mn mx greedy) (i, s, g) =
     map (\<lambda>k. (i + k, drop k s, g)) (rep_counts p mn mx greedy s)"
| "runs (Seq a b) st = concat (map (runs b) (runs a st))"
| "runs (Alt a b) st = runs a st @ runs b st"
| "runs (Opt a) st = runs a st @ [st]"
| "runs (Grp n a) (i, s, g) =
     map (\<lambda>(j, t, h). (j, t, h(n \<mapsto> take (j - i) s))) (runs a (i, s, g))"
| "runs Bol (i, s, g) = (if i = 0 then [(i, s, g)] else [])"
| "runs Eol (i, s, g) = (if s = [] \<or> s = [10] then [(i, s, g)] else [])"
| "runs Eps st = [st]"

text \<open>\<^verbatim>\<open>pattern.match(s)\<close>: the first match at position 0, as its end and its groups.\<close>

definition rx_match :: "rx \<Rightarrow> ustr \<Rightarrow> (nat \<times> (nat \<rightharpoonup> ustr)) option" where
  "rx_match r s =
     (case runs r (0, s, Map.empty) of [] \<Rightarrow> None | (j, t, g) # _ \<Rightarrow> Some (j, g))"

text \<open>
  \<^verbatim>\<open>pattern.finditer(s)\<close>: the subject is scanned from the left; at each position the first
  match is taken and the scan goes on at its end. \<open>skip\<close> counts the characters of the last
  match still to be passed over. The groups of each match are returned.
\<close>

fun finditer_from :: "rx \<Rightarrow> nat \<Rightarrow> nat \<Rightarrow> ustr \<Rightarrow> (nat \<rightharpoonup> ustr) list" where
  "finditer_from r skip i [] =
     (if 0 < skip then []
      else case runs r (i, [], Map.empty) of [] \<Rightarrow> [] | (j, t, g) # _ \<Rightarrow> [g])"
| "finditer_from r skip i (c # cs) =
     (if 0 < skip then finditer_from r (skip - 1) (Suc i) cs
      else case runs r (i, c # cs, Map.empty) of
             [] \<Rightarrow> finditer_from r 0 (Suc i) cs
           | (j, t, g) # _ \<Rightarrow> g # finditer_from r (j - i - 1) (Suc i) cs)"

definition finditer :: "rx \<Rightarrow> ustr \<Rightarrow> (nat \<rightharpoonup> ustr) list" where
  "finditer r s = finditer_from r 0 0 s"

subsection \<open>Writing patterns\<close>

text \<open>
  \<open>seqs\<close> writes a sequence and \<open>alts\<close> an alternation (\<^verbatim>\<open>a|b|c\<close>) of several parts;
  \<open>chr\<close> is one literal character, \<open>lit\<close> a literal text, \<open>ilit\<close> a literal text of a
  pattern compiled with \<^verbatim>\<open>re.IGNORECASE\<close>; \<open>oneof\<close> is a class given by its characters
  and \<open>in_range\<close> a class given by its ends, as in \<^verbatim>\<open>[a-z]\<close>.
\<close>

fun seqs :: "rx list \<Rightarrow> rx" where
  "seqs [] = Eps"
| "seqs (r # rs) = Seq r (seqs rs)"

fun alts :: "rx list \<Rightarrow> rx" where
  "alts [] = Cls (\<lambda>c. False)"
| "alts [r] = r"
| "alts (r # rs) = Alt r (alts rs)"

definition chr :: "char \<Rightarrow> rx" where
  "chr c = Cls (\<lambda>x. x = cp c)"

definition lit :: "string \<Rightarrow> rx" where
  "lit s = seqs (map chr s)"

definition ilit :: "pyrt \<Rightarrow> string \<Rightarrow> rx" where
  "ilit U s = seqs (map (\<lambda>c. Cls (ci_eq U (cp c))) s)"

definition oneof :: "ustr \<Rightarrow> nat \<Rightarrow> bool" where
  "oneof cs c \<longleftrightarrow> c \<in> set cs"

definition in_range :: "char \<Rightarrow> char \<Rightarrow> nat \<Rightarrow> bool" where
  "in_range a b c \<longleftrightarrow> cp a \<le> c \<and> c \<le> cp b"

text \<open>\<^verbatim>\<open>m.group(n)\<close> for a group that took part in the match.\<close>

definition rx_group :: "(nat \<rightharpoonup> ustr) \<Rightarrow> nat \<Rightarrow> ustr" where
  "rx_group g n = (case g n of Some s \<Rightarrow> s | None \<Rightarrow> [])"

section \<open>Header patterns\<close>

text \<open>
  \<^verbatim>\<open>DATE_TIME_PATTERNS\<close> (lines 79 to 90), part by part. The date is
  \<^verbatim>\<open>\d{1,2}[\/\.\-]\d{1,2}[\/\.\-]\d{2,4}\<close> (\<^verbatim>\<open>\d{2}\<close> for the year in the fourth pattern),
  the time \<^verbatim>\<open>\d{1,2}:\d{2}(?::\d{2})?\<close>, and every pattern ends with
  \<^verbatim>\<open>([^:]+?)\s*:\s(.*)$\<close>: the author, a colon followed by one white space, the text.
\<close>

definition digits :: "pyrt \<Rightarrow> nat \<Rightarrow> nat \<Rightarrow> rx" where
  "digits U mn mx = Rep (isdecimal U) mn (Some mx) True"

definition white :: "nat \<Rightarrow> rx" where
  "white mn = Rep isspace mn None True"

definition date_rx :: "pyrt \<Rightarrow> nat \<Rightarrow> nat \<Rightarrow> rx" where
  "date_rx U ymin ymax =
     seqs [digits U 1 2, Cls (oneof (u ''/.-'')), digits U 1 2, Cls (oneof (u ''/.-'')),
           digits U ymin ymax]"

definition time_rx :: "pyrt \<Rightarrow> rx" where
  "time_rx U = seqs [digits U 1 2, chr CHR '':'', digits U 2 2,
                     Opt (seqs [chr CHR '':'', digits U 2 2])]"

definition author_text_rx :: "rx list" where
  "author_text_rx =
     [Grp 3 (Rep (\<lambda>c. c \<noteq> cp CHR '':'') 1 None False), white 0, chr CHR '':'', Cls isspace,
      Grp 4 (Rep (\<lambda>c. c \<noteq> 10) 0 None True), Eol]"

text \<open>The class of the three dashes: en dash U+2013, em dash U+2014 and the hyphen.\<close>

definition dash :: "nat \<Rightarrow> bool" where
  "dash c \<longleftrightarrow> c = 8211 \<or> c = 8212 \<or> c = 45"

text \<open>
  Each pattern is a head, which is the timestamp up to and with its separator, followed by
  the common tail for the author and the text.
\<close>

definition head_bracket_24h :: "pyrt \<Rightarrow> rx list" where
  "head_bracket_24h U =
     [Bol, chr CHR ''['', Grp 1 (date_rx U 2 4), white 1, Grp 2 (time_rx U), chr CHR '']'',
      white 1]"

definition head_bracket_12h :: "pyrt \<Rightarrow> rx list" where
  "head_bracket_12h U =
     [Bol, chr CHR ''['', Grp 1 (date_rx U 2 4), white 1,
      Grp 2 (seqs [time_rx U, white 0, alts [lit ''AM'', lit ''PM'', lit ''am'', lit ''pm'']]),
      chr CHR '']'', white 1]"

definition head_dash_4y :: "pyrt \<Rightarrow> rx list" where
  "head_dash_4y U =
     [Bol, Grp 1 (date_rx U 2 4), chr CHR '','', white 0, Grp 2 (time_rx U), white 0,
      Cls dash, white 0]"

definition head_dash_2y :: "pyrt \<Rightarrow> rx list" where
  "head_dash_2y U =
     [Bol, Grp 1 (date_rx U 2 2), chr CHR '','', white 0, Grp 2 (time_rx U), white 0,
      Cls dash, white 0]"

definition head_bare_24h :: "pyrt \<Rightarrow> rx list" where
  "head_bare_24h U =
     [Bol, Grp 1 (date_rx U 2 4), white 1,
      Grp 2 (seqs [digits U 1 2, chr CHR '':'', digits U 2 2, chr CHR '':'', digits U 2 2]),
      white 1]"

definition pat_bracket_24h :: "pyrt \<Rightarrow> rx" where
  "pat_bracket_24h U = seqs (head_bracket_24h U @ author_text_rx)"

definition pat_bracket_12h :: "pyrt \<Rightarrow> rx" where
  "pat_bracket_12h U = seqs (head_bracket_12h U @ author_text_rx)"

definition pat_dash_4y :: "pyrt \<Rightarrow> rx" where
  "pat_dash_4y U = seqs (head_dash_4y U @ author_text_rx)"

definition pat_dash_2y :: "pyrt \<Rightarrow> rx" where
  "pat_dash_2y U = seqs (head_dash_2y U @ author_text_rx)"

definition pat_bare_24h :: "pyrt \<Rightarrow> rx" where
  "pat_bare_24h U = seqs (head_bare_24h U @ author_text_rx)"

definition heads :: "pyrt \<Rightarrow> rx list list" where
  "heads U = [head_bracket_24h U, head_bracket_12h U, head_dash_4y U, head_dash_2y U,
              head_bare_24h U]"

definition DATE_TIME_PATTERNS :: "pyrt \<Rightarrow> (rx \<times> string) list" where
  "DATE_TIME_PATTERNS U =
     [(pat_bracket_24h U, ''%d/%m/%Y %H:%M:%S''),
      (pat_bracket_12h U, ''%d/%m/%Y %I:%M:%S %p''),
      (pat_dash_4y U, ''%d/%m/%Y %H:%M:%S''),
      (pat_dash_2y U, ''%d/%m/%y %H:%M:%S''),
      (pat_bare_24h U, ''%d/%m/%Y %H:%M:%S'')]"

text \<open>
  The inner loop of \<^verbatim>\<open>parse_chat_text\<close> (lines 178 to 187): the patterns are tried in the
  order of the list and the first that matches gives the groups; the format string paired
  with a pattern is not used.
\<close>

fun first_match :: "(rx \<times> string) list \<Rightarrow> ustr \<Rightarrow> (nat \<rightharpoonup> ustr) option" where
  "first_match [] line = None"
| "first_match ((pat, fmt) # ps) line =
     (case rx_match pat line of Some (j, g) \<Rightarrow> Some g | None \<Rightarrow> first_match ps line)"

definition classify :: "pyrt \<Rightarrow> ustr \<Rightarrow> (ustr \<times> ustr \<times> ustr \<times> ustr) option" where
  "classify U line =
     (case first_match (DATE_TIME_PATTERNS U) line of
        None \<Rightarrow> None
      | Some g \<Rightarrow> Some (rx_group g 1, rx_group g 2, strip (rx_group g 3), rx_group g 4))"

section \<open>Timestamps\<close>

text \<open>
  A naive \<^verbatim>\<open>datetime.datetime\<close>. Python compares two of them field by field, from the
  year to the microsecond: \<open>dt_key\<close> is that order (a lexicographic product).
\<close>

record datetime =
  year :: nat
  month :: nat
  day :: nat
  hour :: nat
  minute :: nat
  second :: nat
  microsecond :: nat

definition dt_key :: "datetime \<Rightarrow> nat \<times> nat \<times> nat \<times> nat \<times> nat \<times> nat \<times> nat" where
  "dt_key d = (year d, month d, day d, hour d, minute d, second d, microsecond d)"

text \<open>\<^verbatim>\<open>datetime.date()\<close>: year, month and day.\<close>

definition date_of :: "datetime \<Rightarrow> nat \<times> nat \<times> nat" where
  "date_of d = (year d, month d, day d)"

definition is_leap :: "nat \<Rightarrow> bool" where
  "is_leap y \<longleftrightarrow> y mod 4 = 0 \<and> (y mod 100 \<noteq> 0 \<or> y mod 400 = 0)"

definition days_in_month :: "nat \<Rightarrow> nat \<Rightarrow> nat" where
  "days_in_month y m =
     (if m = 2 then (if is_leap y then 29 else 28)
      else if m = 4 \<or> m = 6 \<or> m = 9 \<or> m = 11 then 30 else 31)"

text \<open>
  The \<^verbatim>\<open>datetime\<close> constructor raises \<^verbatim>\<open>ValueError\<close> unless every field is in range.
\<close>

definition valid_datetime :: "datetime \<Rightarrow> bool" where
  "valid_datetime d \<longleftrightarrow>
     1 \<le> year d \<and> year d \<le> 9999 \<and> 1 \<le> month d \<and> month d \<le> 12 \<and>
     1 \<le> day d \<and> day d \<le> days_in_month (year d) (month d) \<and>
     hour d \<le> 23 \<and> minute d \<le> 59 \<and> second d \<le> 59 \<and> microsecond d \<le> 999999"

subsection \<open>\<^verbatim>\<open>datetime.strptime\<close>\<close>

text \<open>
  CPython's \<^verbatim>\<open>_strptime\<close> turns the format into a regular expression compiled with
  \<^verbatim>\<open>re.IGNORECASE\<close>, one named group for each directive, a run of white space of the format
  into \<^verbatim>\<open>\s+\<close>; it matches the regular expression at the start of the text, fails when a
  part of the text is left over, and builds the value from the groups. The directives are
  the ones the program's formats use, with the meridiem names of the C locale; a group is
  numbered by the code of its directive letter.
  \<^verbatim>\<open>
  'd': (?P<d>3[0-1]|[1-2]\d|0[1-9]|[1-9]| [1-9])    'm': (?P<m>1[0-2]|0[1-9]|[1-9])
  'H': (?P<H>2[0-3]|[0-1]\d|\d)                     'I': (?P<I>1[0-2]|0[1-9]|[1-9])
  'M': (?P<M>[0-5]\d|\d)                            'S': (?P<S>6[0-1]|[0-5]\d|\d)
  'y': (?P<y>\d\d)     'Y': (?P<Y>\d\d\d\d)         'p': (?P<p>am|pm)
  \<close>
\<close>

definition directive_rx :: "pyrt \<Rightarrow> char \<Rightarrow> rx option" where
  "directive_rx U c =
     (let dg = Cls (isdecimal U); r = (\<lambda>a b. Cls (in_range a b)) in
      if c = CHR ''d'' then Some (Grp (cp c) (alts
          [seqs [chr CHR ''3'', r CHR ''0'' CHR ''1''], seqs [r CHR ''1'' CHR ''2'', dg],
           seqs [chr CHR ''0'', r CHR ''1'' CHR ''9''], r CHR ''1'' CHR ''9'',
           seqs [chr CHR '' '', r CHR ''1'' CHR ''9'']]))
      else if c = CHR ''m'' \<or> c = CHR ''I'' then Some (Grp (cp c) (alts
          [seqs [chr CHR ''1'', r CHR ''0'' CHR ''2''],
           seqs [chr CHR ''0'', r CHR ''1'' CHR ''9''], r CHR ''1'' CHR ''9'']))
      else if c = CHR ''H'' then Some (Grp (cp c) (alts
          [seqs [chr CHR ''2'', r CHR ''0'' CHR ''3''], seqs [r CHR ''0'' CHR ''1'', dg], dg]))
      else if c = CHR ''M'' then Some (Grp (cp c) (alts
          [seqs [r CHR ''0'' CHR ''5'', dg], dg]))
      else if c = CHR ''S'' then Some (Grp (cp c) (alts
          [seqs [chr CHR ''6'', r CHR ''0'' CHR ''1''], seqs [r CHR ''0'' CHR ''5'', dg], dg]))
      else if c = CHR ''y'' then Some (Grp (cp c) (seqs [dg, dg]))
      else if c = CHR ''Y'' then Some (Grp (cp c) (seqs [dg, dg, dg, dg]))
      else if c = CHR ''p'' then Some (Grp (cp c) (alts [ilit U ''am'', ilit U ''pm'']))
      else None)"

text \<open>
  The format, from the left; \<open>ws\<close> says that the last character was white space, whose
  run has already given its \<^verbatim>\<open>\s+\<close>. \<open>None\<close> is the \<^verbatim>\<open>ValueError\<close> of a bad directive.
\<close>

fun format_rx :: "pyrt \<Rightarrow> bool \<Rightarrow> string \<Rightarrow> rx list option" where
  "format_rx U ws [] = Some []"
| "format_rx U ws (c # cs) =
     (if isspace (cp c) then
        (if ws then format_rx U True cs else map_option (Cons (white 1)) (format_rx U True cs))
      else if c = CHR ''%'' then
        (case cs of
           [] \<Rightarrow> None
         | d # ds \<Rightarrow>
             (case directive_rx U d of
                None \<Rightarrow> None
              | Some r \<Rightarrow> map_option (Cons r) (format_rx U False ds)))
      else map_option (Cons (Cls (ci_eq U (cp c)))) (format_rx U False cs))"

text \<open>\<^verbatim>\<open>int(s)\<close> on the text of a group: white space around the digits is dropped.\<close>

definition to_int :: "pyrt \<Rightarrow> ustr \<Rightarrow> nat" where
  "to_int U s = foldl (\<lambda>n c. 10 * n + digit_value U c) 0 (strip s)"

text \<open>
  The fields from the groups. A field without a directive keeps its default (1900-01-01
  00:00:00). \<^verbatim>\<open>%y\<close> is a year of 2000 to 2068 or of 1969 to 1999; the hour of \<^verbatim>\<open>%I\<close> is
  read with the meridiem of \<^verbatim>\<open>%p\<close>, and as a morning hour without one. The formats of
  the program have one year and one hour directive each.
\<close>

definition num_group :: "pyrt \<Rightarrow> (nat \<rightharpoonup> ustr) \<Rightarrow> char \<Rightarrow> nat \<Rightarrow> nat" where
  "num_group U g c dflt = (case g (cp c) of None \<Rightarrow> dflt | Some s \<Rightarrow> to_int U s)"

definition found_year :: "pyrt \<Rightarrow> (nat \<rightharpoonup> ustr) \<Rightarrow> nat" where
  "found_year U g =
     (case g (cp CHR ''y'') of
        Some s \<Rightarrow> (let y = to_int U s in if y \<le> 68 then y + 2000 else y + 1900)
      | None \<Rightarrow> num_group U g CHR ''Y'' 1900)"

definition found_hour :: "pyrt \<Rightarrow> (nat \<rightharpoonup> ustr) \<Rightarrow> nat" where
  "found_hour U g =
     (case g (cp CHR ''I'') of
        Some s \<Rightarrow>
          (let h = to_int U s;
               ampm = lower U (case g (cp CHR ''p'') of None \<Rightarrow> [] | Some a \<Rightarrow> a)
           in if ampm = [] \<or> ampm = u ''am'' then (if h = 12 then 0 else h)
              else if ampm = u ''pm'' then (if h \<noteq> 12 then h + 12 else h)
              else h)
      | None \<Rightarrow> num_group U g CHR ''H'' 0)"

definition found_datetime :: "pyrt \<Rightarrow> (nat \<rightharpoonup> ustr) \<Rightarrow> datetime" where
  "found_datetime U g =
     \<lparr> year = found_year U g, month = num_group U g CHR ''m'' 1,
       day = num_group U g CHR ''d'' 1, hour = found_hour U g,
       minute = num_group U g CHR ''M'' 0, second = num_group U g CHR ''S'' 0,
       microsecond = 0 \<rparr>"

definition strptime :: "pyrt \<Rightarrow> ustr \<Rightarrow> string \<Rightarrow> datetime option" where
  "strptime U data fmt =
     (case format_rx U False fmt of
        None \<Rightarrow> None
      | Some rs \<Rightarrow>
          (case rx_match (seqs rs) data of
             None \<Rightarrow> None
           | Some (j, g) \<Rightarrow>
               if j \<noteq> length data then None
               else if valid_datetime (found_datetime U g) then Some (found_datetime U g)
               else None))"

subsection \<open>\<^verbatim>\<open>parse_datetime\<close>\<close>

text \<open>\<^verbatim>\<open>re.sub\<close> of a pattern that is one character class: each such character is replaced.\<close>

definition sub_class :: "(nat \<Rightarrow> bool) \<Rightarrow> ustr \<Rightarrow> ustr \<Rightarrow> ustr" where
  "sub_class p new s = concat (map (\<lambda>c. if p c then new else [c]) s)"

definition fmts :: "string list" where
  "fmts =
     [''%d/%m/%Y %H:%M:%S'', ''%d/%m/%Y %H:%M'',
      ''%d/%m/%y %H:%M:%S'', ''%d/%m/%y %H:%M'',
      ''%m/%d/%Y %H:%M:%S'', ''%m/%d/%Y %H:%M'',
      ''%m/%d/%y %H:%M:%S'', ''%m/%d/%y %H:%M'',
      ''%d/%m/%Y %I:%M:%S %p'', ''%d/%m/%Y %I:%M %p'',
      ''%d/%m/%y %I:%M:%S %p'', ''%d/%m/%y %I:%M %p'',
      ''%m/%d/%Y %I:%M:%S %p'', ''%m/%d/%Y %I:%M %p'',
      ''%m/%d/%y %I:%M:%S %p'', ''%m/%d/%y %I:%M %p'']"

text \<open>The loop of lines 118 to 123: the first format that parses gives the result.\<close>

fun first_parsed :: "pyrt \<Rightarrow> ustr \<Rightarrow> string list \<Rightarrow> datetime option" where
  "first_parsed U s [] = None"
| "first_parsed U s (f # fs) =
     (case strptime U s f of Some d \<Rightarrow> Some d | None \<Rightarrow> first_parsed U s fs)"

definition d_norm :: "ustr \<Rightarrow> ustr" where
  "d_norm date_str =
     strip (replace [8239] [32] (replace [160] [32] (sub_class (oneof (u ''.-'')) (u ''/'') date_str)))"

definition t_norm :: "pyrt \<Rightarrow> ustr \<Rightarrow> ustr" where
  "t_norm U time_str = upper U (strip (replace [8239] [32] (replace [160] [32] time_str)))"

text \<open>The text \<^verbatim>\<open>f"{d_norm} {t_norm}"\<close> that every format is tried on.\<close>

definition stamp :: "pyrt \<Rightarrow> ustr \<Rightarrow> ustr \<Rightarrow> ustr" where
  "stamp U date_str time_str = d_norm date_str @ u '' '' @ t_norm U time_str"

definition parse_datetime :: "pyrt \<Rightarrow> ustr \<Rightarrow> ustr \<Rightarrow> datetime option" where
  "parse_datetime U date_str time_str = first_parsed U (stamp U date_str time_str) fmts"

section \<open>Messages and the transcript parser\<close>

text \<open>
  The classes \<^verbatim>\<open>Attachment\<close>, \<^verbatim>\<open>Message\<close> and \<^verbatim>\<open>Conversation\<close>. The field \<^verbatim>\<open>text\<close> of a
  message is \<open>msg_text\<close> here. The messages of a conversation are distinct objects, each
  made by the parser, so that changing one message in place is replacing it in the list.
\<close>

record Attachment =
  relpath :: ustr
  kind :: string
  filename :: ustr

record Message =
  timestamp :: datetime
  author :: ustr
  msg_text :: ustr
  attachments :: "Attachment list"

record Conversation =
  chat_id :: ustr
  title :: ustr
  messages :: "Message list"
  base_dir :: ustr

text \<open>
  The loop over the lines (lines 174 to 192), on the pair of \<^verbatim>\<open>messages\<close> and \<^verbatim>\<open>current\<close>.
  \<open>now k\<close> is what \<^verbatim>\<open>dt.datetime.now()\<close> returns while line \<open>k\<close> is handled.
\<close>

type_synonym parser_state = "Message list \<times> Message option"

definition emit :: "parser_state \<Rightarrow> Message list" where
  "emit st = (case snd st of None \<Rightarrow> fst st | Some c \<Rightarrow> fst st @ [c])"

definition parse_line :: "pyrt \<Rightarrow> datetime \<Rightarrow> ustr \<Rightarrow> parser_state \<Rightarrow> parser_state" where
  "parse_line U now_k raw st =
     (let line = normalize_line raw in
      case classify U line of
        Some (date_part, time_part, name, body) \<Rightarrow>
          (let ts = (case parse_datetime U date_part time_part of
                       Some t \<Rightarrow> t | None \<Rightarrow> now_k)
           in (emit st,
               Some \<lparr> timestamp = ts, author = name, msg_text = strip body,
                      attachments = [] \<rparr>))
      | None \<Rightarrow>
          (case snd st of
             Some c \<Rightarrow> (fst st, Some (c\<lparr> msg_text := msg_text c @ [10] @ line \<rparr>))
           | None \<Rightarrow> st))"

fun parse_loop :: "pyrt \<Rightarrow> (nat \<Rightarrow> datetime) \<Rightarrow> nat \<Rightarrow> ustr list \<Rightarrow> parser_state \<Rightarrow> parser_state" where
  "parse_loop U now k [] st = st"
| "parse_loop U now k (raw # rest) st = parse_loop U now (Suc k) rest (parse_line U (now k) raw st)"

text \<open>\<^verbatim>\<open>messages.sort(key=lambda m: m.timestamp)\<close>: Python's sort is stable.\<close>

definition sort_messages :: "Message list \<Rightarrow> Message list" where
  "sort_messages ms = sort_key (\<lambda>m. dt_key (timestamp m)) ms"

definition parse_messages :: "pyrt \<Rightarrow> (nat \<Rightarrow> datetime) \<Rightarrow> ustr list \<Rightarrow> Message list" where
  "parse_messages U now lines = sort_messages (emit (parse_loop U now 0 lines ([], None)))"

subsection \<open>Reading the transcript\<close>

text \<open>
  \<^verbatim>\<open>str.splitlines()\<close>: a line ends at a line boundary, \<^verbatim>\<open>\r\n\<close> is one boundary, and no
  empty line follows the last boundary.
\<close>

definition is_linebreak :: "nat \<Rightarrow> bool" where
  "is_linebreak c \<longleftrightarrow> (10 \<le> c \<and> c \<le> 13) \<or> (28 \<le> c \<and> c \<le> 30) \<or> c = 133 \<or> c = 8232 \<or> c = 8233"

fun splitlines_acc :: "ustr \<Rightarrow> ustr \<Rightarrow> ustr list" where
  "splitlines_acc cur [] = (if cur = [] then [] else [cur])"
| "splitlines_acc cur [c] = (if is_linebreak c then [cur] else [cur @ [c]])"
| "splitlines_acc cur (c # d # cs) =
     (if c = 13 \<and> d = 10 then cur # splitlines_acc [] cs
      else if is_linebreak c then cur # splitlines_acc [] (d # cs)
      else splitlines_acc (cur @ [c]) (d # cs))"

definition splitlines :: "ustr \<Rightarrow> ustr list" where
  "splitlines s = splitlines_acc [] s"

text \<open>
  The transcript file, as the program sees it: the stem of its name, and what
  \<^verbatim>\<open>read_text(encoding=enc)\<close> gives for an encoding, \<open>None\<close> when it raises.
\<close>

record txt_file =
  stem :: ustr
  read_text :: "string \<Rightarrow> ustr option"

datatype error = RuntimeError

definition encodings :: "string list" where
  "encodings = [''utf-8-sig'', ''utf-16'', ''utf-8'']"

fun first_decoded :: "(string \<Rightarrow> ustr option) \<Rightarrow> string list \<Rightarrow> ustr option" where
  "first_decoded rd [] = None"
| "first_decoded rd (enc # encs) =
     (case rd enc of Some d \<Rightarrow> Some d | None \<Rightarrow> first_decoded rd encs)"

text \<open>
  \<^verbatim>\<open>re.sub\<close> of a pattern that starts with \<^verbatim>\<open>^\<close> by the empty text: the pattern can
  only match at position 0, and what it matches there is dropped.
\<close>

definition drop_match :: "rx \<Rightarrow> ustr \<Rightarrow> ustr" where
  "drop_match r s = (case rx_match r s of None \<Rightarrow> s | Some (j, g) \<Rightarrow> drop j s)"

definition detect_title_from_txtname :: "pyrt \<Rightarrow> ustr \<Rightarrow> ustr" where
  "detect_title_from_txtname U name0 =
     (let name1 = drop_match (seqs [Bol, ilit U ''WhatsApp Chat with'', white 1]) name0;
          name2 = drop_match (seqs [Bol, ilit U ''Discussion WhatsApp avec'', white 1]) name1;
          name3 = replace (u ''_'') (u '' '') name2
      in if name3 = [] then u ''WhatsApp Chat'' else name3)"

definition parse_chat_text ::
  "pyrt \<Rightarrow> (nat \<Rightarrow> datetime) \<Rightarrow> txt_file \<Rightarrow> error + (ustr \<times> Message list)" where
  "parse_chat_text U now txt_path =
     (case first_decoded (read_text txt_path) encodings of
        None \<Rightarrow> Inl RuntimeError
      | Some data \<Rightarrow>
          Inr (detect_title_from_txtname U (stem txt_path),
               parse_messages U now (splitlines data)))"

subsection \<open>Merging conversations\<close>

text \<open>
  The loop of lines 331 to 338: a conversation whose id is already present gives its
  messages to the one that is there, which is sorted again.
\<close>

definition merge_messages :: "Message list \<Rightarrow> Message list \<Rightarrow> Message list" where
  "merge_messages old new = sort_messages (old @ new)"

definition add_conversation ::
  "(ustr \<rightharpoonup> Conversation) \<Rightarrow> Conversation \<Rightarrow> (ustr \<rightharpoonup> Conversation)" where
  "add_conversation convs conv =
     (case convs (chat_id conv) of
        Some c \<Rightarrow>
          convs(chat_id conv \<mapsto> c\<lparr> messages := merge_messages (messages c) (messages conv) \<rparr>)
      | None \<Rightarrow> convs(chat_id conv \<mapsto> conv))"

section \<open>Media catalog and attachment linker\<close>

text \<open>
  A path under the archive directory is the list of its components from that directory;
  \<open>path_name\<close> is \<^verbatim>\<open>p.name\<close>, \<open>suffix\<close> is \<^verbatim>\<open>p.suffix\<close> (the name from its last dot, when
  that dot is neither the first nor the last character) and \<open>relative_str\<close> is
  \<^verbatim>\<open>str(p.relative_to(conv.base_dir))\<close>. An entry of the directory tree is what
  \<^verbatim>\<open>conv.base_dir.rglob("*")\<close> yields, with the answer of \<^verbatim>\<open>is_file()\<close>.
\<close>

type_synonym path = "ustr list"

record tree_entry =
  rel :: path
  is_file :: bool

definition path_name :: "path \<Rightarrow> ustr" where
  "path_name p = (case rev p of [] \<Rightarrow> [] | n # _ \<Rightarrow> n)"

definition suffix :: "ustr \<Rightarrow> ustr" where
  "suffix name =
     (if cp CHR ''.'' \<in> set name then
        (let after = length (takeWhile (\<lambda>c. c \<noteq> cp CHR ''.'') (rev name));
             i = length name - after - 1
         in if 0 < i \<and> 0 < after then drop i name else [])
      else [])"

fun str_join :: "ustr \<Rightarrow> ustr list \<Rightarrow> ustr" where
  "str_join sep [] = []"
| "str_join sep [x] = x"
| "str_join sep (x # xs) = x @ sep @ str_join sep xs"

definition relative_str :: "path \<Rightarrow> ustr" where
  "relative_str p = str_join (u ''/'') p"

definition MEDIA_EXTS :: "(string \<times> ustr list) list" where
  "MEDIA_EXTS =
     [(''image'', map u [''.jpg'', ''.jpeg'', ''.png'', ''.gif'', ''.webp'', ''.heic'']),
      (''video'', map u [''.mp4'', ''.3gp'', ''.mov'', ''.avi'', ''.mkv'', ''.m4v'']),
      (''audio'', map u [''.opus'', ''.ogg'', ''.mp3'', ''.wav'', ''.m4a'']),
      (''doc'', map u [''.pdf'', ''.txt'', ''.vcf'', ''.csv'', ''.doc'', ''.docx'', ''.xls'',
                      ''.xlsx'', ''.zip''])]"

definition ALL_MEDIA_EXTS :: "ustr list" where
  "ALL_MEDIA_EXTS = concat (map snd MEDIA_EXTS)"

definition MEDIA_OMITTED_TOKENS :: "ustr list" where
  "MEDIA_OMITTED_TOKENS =
     [u ''<Media omitted>'', u ''<M'' @ [233] @ u ''dia omis>'', u ''<M'' @ [233] @ u ''dia omise>'',
      u ''image omitted'', u ''video omitted'', u ''image omise'', u ''video omise'']"

fun kind_in :: "(string \<times> ustr list) list \<Rightarrow> ustr \<Rightarrow> string" where
  "kind_in [] ext = ''doc''"
| "kind_in ((k, exts) # rest) ext = (if ext \<in> set exts then k else kind_in rest ext)"

definition classify_ext :: "pyrt \<Rightarrow> path \<Rightarrow> string" where
  "classify_ext U p = kind_in MEDIA_EXTS (lower U (suffix (path_name p)))"

text \<open>
  The catalog \<^verbatim>\<open>media_files\<close> (lines 200 to 203) is a dictionary: a name that comes again
  keeps its place and takes the new path.
\<close>

definition media_files :: "pyrt \<Rightarrow> tree_entry list \<Rightarrow> (ustr \<times> path) list" where
  "media_files U tree =
     foldl (\<lambda>m e. if is_file e \<and> lower U (suffix (path_name (rel e))) \<in> set ALL_MEDIA_EXTS
                   then AList.update (path_name (rel e)) (rel e) m else m) [] tree"

definition unassigned :: "(ustr \<times> path) list \<Rightarrow> (ustr \<rightharpoonup> bool)" where
  "unassigned media = map_of (map (\<lambda>(k, p). (k, False)) media)"

text \<open>
  The three patterns of lines 207 to 212:
  \<^verbatim>\<open>([A-Za-z0-9_-]+-\d{8}-WA\d+\.[A-Za-z0-9]{1,5})\<close>, then with \<^verbatim>\<open>re.IGNORECASE\<close>
  \<^verbatim>\<open>([\w.\-]+\.(?:jpg|jpeg|png|gif|mp4|3gp|mov|avi|mkv|m4v|opus|ogg|mp3|wav|m4a|pdf|webp|heic|docx?|xlsx?|zip))\<close>
  and \<^verbatim>\<open>.*-(\d{8})-WA\d+\.[A-Za-z0-9]{1,5}$\<close>.
\<close>

definition alnum :: "nat \<Rightarrow> bool" where
  "alnum c \<longleftrightarrow> in_range CHR ''A'' CHR ''Z'' c \<or> in_range CHR ''a'' CHR ''z'' c \<or> in_range CHR ''0'' CHR ''9'' c"

definition wa_tail :: "pyrt \<Rightarrow> rx list" where
  "wa_tail U = [chr CHR ''-'', chr CHR ''W'', chr CHR ''A'', Rep (isdecimal U) 1 None True,
                chr CHR ''.'', Rep alnum 1 (Some 5) True]"

definition filename_pat :: "pyrt \<Rightarrow> rx" where
  "filename_pat U =
     Grp 1 (seqs ([Rep (\<lambda>c. alnum c \<or> c = cp CHR ''_'' \<or> c = cp CHR ''-'') 1 None True,
                   chr CHR ''-'', digits U 8 8] @ wa_tail U))"

definition generic_file_pat :: "pyrt \<Rightarrow> rx" where
  "generic_file_pat U =
     Grp 1 (seqs [Rep (\<lambda>c. isword U c \<or> c = cp CHR ''.'' \<or> c = cp CHR ''-'') 1 None True,
                  ilit U ''.'',
                  alts (map (ilit U)
                          [''jpg'', ''jpeg'', ''png'', ''gif'', ''mp4'', ''3gp'', ''mov'', ''avi'',
                           ''mkv'', ''m4v'', ''opus'', ''ogg'', ''mp3'', ''wav'', ''m4a'', ''pdf'',
                           ''webp'', ''heic'']
                        @ [seqs [ilit U ''doc'', Opt (ilit U ''x'')],
                           seqs [ilit U ''xls'', Opt (ilit U ''x'')],
                           ilit U ''zip''])])"

definition date_from_name :: "pyrt \<Rightarrow> rx" where
  "date_from_name U =
     seqs ([Rep (\<lambda>c. c \<noteq> 10) 0 None True, chr CHR ''-'', Grp 1 (digits U 8 8)]
           @ wa_tail U @ [Eol])"

text \<open>
  Lines 215 to 218: the names found in a text by the two patterns, as a set. The set is
  iterated in the order the runtime gives it.
\<close>

definition found_names :: "rx \<Rightarrow> ustr \<Rightarrow> ustr list" where
  "found_names r s = map (\<lambda>g. rx_group g 1) (finditer r s)"

definition files_in_text :: "pyrt \<Rightarrow> ustr \<Rightarrow> ustr list" where
  "files_in_text U s =
     set_order U (remdups (found_names (filename_pat U) s @ found_names (generic_file_pat U) s))"

definition make_attachment :: "pyrt \<Rightarrow> ustr \<Rightarrow> path \<Rightarrow> Attachment" where
  "make_attachment U fname p =
     \<lparr> relpath = relative_str p, kind = classify_ext U p, filename = fname \<rparr>"

definition attach :: "pyrt \<Rightarrow> ustr \<Rightarrow> path \<Rightarrow> Message \<Rightarrow> Message" where
  "attach U fname p msg = msg\<lparr> attachments := attachments msg @ [make_attachment U fname p] \<rparr>"

text \<open>
  Lines 219 to 223, for one message: each name found in the text that is a key of the
  catalog and not yet assigned is attached and marked.
\<close>

type_synonym link_state = "Message \<times> (ustr \<rightharpoonup> bool)"

fun attach_named :: "pyrt \<Rightarrow> (ustr \<times> path) list \<Rightarrow> ustr list \<Rightarrow> link_state \<Rightarrow> link_state" where
  "attach_named U media [] st = st"
| "attach_named U media (fname # rest) (msg, assigned) =
     (case map_of media fname of
        Some p \<Rightarrow>
          if assigned fname \<noteq> Some True
          then attach_named U media rest (attach U fname p msg, assigned(fname \<mapsto> True))
          else attach_named U media rest (msg, assigned)
      | None \<Rightarrow> attach_named U media rest (msg, assigned))"

definition link_by_text :: "pyrt \<Rightarrow> (ustr \<times> path) list \<Rightarrow> link_state \<Rightarrow> link_state" where
  "link_by_text U media st = attach_named U media (files_in_text U (msg_text (fst st))) st"

text \<open>
  Lines 231 to 244, for one message whose date is \<open>d\<close>: the first entry of the catalog, in
  its order, that is not assigned, whose name matches \<^verbatim>\<open>date_from_name\<close> and whose eight
  digits are, by \<^verbatim>\<open>strptime(..., "%Y%m%d")\<close>, the date \<open>d\<close>.
\<close>

definition name_date :: "pyrt \<Rightarrow> ustr \<Rightarrow> (nat \<times> nat \<times> nat) option" where
  "name_date U fname =
     (case rx_match (date_from_name U) fname of
        None \<Rightarrow> None
      | Some (j, g) \<Rightarrow> map_option date_of (strptime U (rx_group g 1) ''%Y%m%d''))"

fun date_candidate ::
  "pyrt \<Rightarrow> (ustr \<times> path) list \<Rightarrow> (ustr \<rightharpoonup> bool) \<Rightarrow> nat \<times> nat \<times> nat \<Rightarrow> (ustr \<times> path) option" where
  "date_candidate U [] assigned d = None"
| "date_candidate U ((fname, p) # rest) assigned d =
     (if assigned fname = Some True then date_candidate U rest assigned d
      else case name_date U fname of
             None \<Rightarrow> date_candidate U rest assigned d
           | Some d' \<Rightarrow> if d' = d then Some (fname, p) else date_candidate U rest assigned d)"

text \<open>Lines 229 and 230: the test on the text of the message.\<close>

definition is_placeholder :: "pyrt \<Rightarrow> ustr \<Rightarrow> bool" where
  "is_placeholder U s =
     (let text_l = lower U (strip s)
      in text_l = [] \<or> list_ex (\<lambda>tok. contains (lower U tok) text_l) MEDIA_OMITTED_TOKENS)"

definition link_by_date :: "pyrt \<Rightarrow> (ustr \<times> path) list \<Rightarrow> link_state \<Rightarrow> link_state" where
  "link_by_date U media st =
     (let msg = fst st; assigned = snd st in
      if attachments msg \<noteq> [] then st
      else if is_placeholder U (msg_text msg) then
        (case date_candidate U media assigned (date_of (timestamp msg)) of
           None \<Rightarrow> st
         | Some (fname, p) \<Rightarrow> (attach U fname p msg, assigned(fname \<mapsto> True)))
      else st)"

text \<open>
  One loop over the messages, with the dictionary \<^verbatim>\<open>assigned\<close> going from one message
  to the next; \<^verbatim>\<open>link_attachments\<close> is the first loop followed by the second.
\<close>

fun for_messages ::
  "(link_state \<Rightarrow> link_state) \<Rightarrow> Message list \<Rightarrow> (ustr \<rightharpoonup> bool) \<Rightarrow> Message list \<times> (ustr \<rightharpoonup> bool)" where
  "for_messages f [] assigned = ([], assigned)"
| "for_messages f (msg # rest) assigned =
     (case f (msg, assigned) of
        (msg', assigned') \<Rightarrow>
          (case for_messages f rest assigned' of
             (rest', assigned'') \<Rightarrow> (msg' # rest', assigned'')))"

definition link_messages ::
  "pyrt \<Rightarrow> (ustr \<times> path) list \<Rightarrow> Message list \<Rightarrow> Message list \<times> (ustr \<rightharpoonup> bool)" where
  "link_messages U media msgs =
     (case for_messages (link_by_text U media) msgs (unassigned media) of
        (msgs1, assigned1) \<Rightarrow> for_messages (link_by_date U media) msgs1 assigned1)"

definition link_attachments :: "pyrt \<Rightarrow> tree_entry list \<Rightarrow> Conversation \<Rightarrow> Conversation" where
  "link_attachments U tree conv =
     conv\<lparr> messages := fst (link_messages U (media_files U tree) (messages conv)) \<rparr>"

section \<open>Notions the properties are stated with\<close>

text \<open>
  One sample line for each header format the patterns are written for, after the comments
  of lines 80 to 88.
\<close>

definition sample_bracket_24h :: ustr where
  "sample_bracket_24h = u ''[05/03/2024 14:30:15] Alice: hello''"

definition sample_bracket_12h :: ustr where
  "sample_bracket_12h = u ''[05/03/2024 2:30:15 PM] Alice: hello''"

definition sample_dash_4y :: ustr where
  "sample_dash_4y = u ''05/03/2024, 14:30 - Alice: hello''"

definition sample_dash_2y :: ustr where
  "sample_dash_2y = u ''05/03/24, 14:30 - Alice: hello''"

definition sample_bare_24h :: ustr where
  "sample_bare_24h = u ''05/03/2024 14:30:15 Alice: hello''"

text \<open>The patterns of a list that match a line, and their positions in the list.\<close>

definition matching :: "(rx \<times> string) list \<Rightarrow> ustr \<Rightarrow> (rx \<times> string) list" where
  "matching ps line = filter (\<lambda>pf. rx_match (fst pf) line \<noteq> None) ps"

definition matching_indices :: "pyrt \<Rightarrow> ustr \<Rightarrow> nat list" where
  "matching_indices U line =
     filter (\<lambda>i. rx_match (fst (DATE_TIME_PATTERNS U ! i)) line \<noteq> None)
       [0 ..< length (DATE_TIME_PATTERNS U)]"

text \<open>The formats of \<^verbatim>\<open>parse_datetime\<close> under which a date and a time parse.\<close>

definition successful_formats :: "pyrt \<Rightarrow> ustr \<Rightarrow> ustr \<Rightarrow> string list" where
  "successful_formats U date_str time_str =
     filter (\<lambda>f. strptime U (stamp U date_str time_str) f \<noteq> None) fmts"

text \<open>The key a list of messages is sorted by.\<close>

definition msg_key :: "Message \<Rightarrow> nat \<times> nat \<times> nat \<times> nat \<times> nat \<times> nat \<times> nat" where
  "msg_key m = dt_key (timestamp m)"

text \<open>
  \<open>extends m m'\<close>: \<open>m'\<close> is \<open>m\<close> with attachments appended and nothing else changed.
  \<open>named f m\<close> counts the attachments of \<open>m\<close> whose file name is \<open>f\<close>, and
  \<open>attached_total f msgs\<close> counts them over a list of messages. \<open>credit a f\<close> is 1 while
  the entry \<open>f\<close> is not marked in the dictionary \<open>a\<close>, and 0 afterwards. A text
  \<open>references\<close> a name when one of the two patterns finds it there.
\<close>

definition extends :: "Message \<Rightarrow> Message \<Rightarrow> bool" where
  "extends m m' \<longleftrightarrow>
     timestamp m' = timestamp m \<and> author m' = author m \<and> msg_text m' = msg_text m \<and>
     (\<exists>added. attachments m' = attachments m @ added)"

definition named :: "ustr \<Rightarrow> Message \<Rightarrow> nat" where
  "named f m = length (filter (\<lambda>a. filename a = f) (attachments m))"

definition attached_total :: "ustr \<Rightarrow> Message list \<Rightarrow> nat" where
  "attached_total f msgs = sum_list (map (named f) msgs)"

definition credit :: "(ustr \<rightharpoonup> bool) \<Rightarrow> ustr \<Rightarrow> nat" where
  "credit a f = (if a f = Some True then 0 else 1)"

text \<open>
  \<open>marks media a a'\<close>: the dictionary \<open>a'\<close> is \<open>a\<close> with some entries of the catalog marked
  as assigned, and nothing else changed.
\<close>

definition marks :: "(ustr \<times> path) list \<Rightarrow> (ustr \<rightharpoonup> bool) \<Rightarrow> (ustr \<rightharpoonup> bool) \<Rightarrow> bool" where
  "marks media a a' \<longleftrightarrow> (\<forall>f. a' f = a f \<or> (a' f = Some True \<and> f \<in> fst ` set media))"

definition references :: "pyrt \<Rightarrow> ustr \<Rightarrow> ustr \<Rightarrow> bool" where
  "references U s f \<longleftrightarrow>
     f \<in> set (found_names (filename_pat U) s) \<union> set (found_names (generic_file_pat U) s)"

text \<open>
  Values for the examples: the time 2024-03-05 \<open>h\<close>:00:00, a message sent then, a clock
  that always reads 2026-01-01 00:00:00, and the lemmas that evaluate the model on a
  concrete input.
\<close>

definition at_hour :: "nat \<Rightarrow> datetime" where
  "at_hour h = \<lparr> year = 2024, month = 3, day = 5, hour = h, minute = 0, second = 0,
                 microsecond = 0 \<rparr>"

definition msg_at :: "nat \<Rightarrow> string \<Rightarrow> Message" where
  "msg_at h s = \<lparr> timestamp = at_hour h, author = u ''Alice'', msg_text = u s, attachments = [] \<rparr>"

definition fixed_clock :: "nat \<Rightarrow> datetime" where
  "fixed_clock k = \<lparr> year = 2026, month = 1, day = 1, hour = 0, minute = 0, second = 0,
                     microsecond = 0 \<rparr>"

text \<open>
  The first entry of the catalog that is not assigned and whose name encodes the date \<open>d\<close>.
\<close>

definition first_dated ::
  "pyrt \<Rightarrow> (ustr \<times> path) list \<Rightarrow> (ustr \<rightharpoonup> bool) \<Rightarrow> nat \<times> nat \<times> nat \<Rightarrow> (ustr \<times> path) option" where
  "first_dated U media a d =
     find (\<lambda>e. a (fst e) \<noteq> Some True \<and> name_date U (fst e) = Some d) media"

text \<open>
  A message of 2024-03-05 whose text is the placeholder, and a catalog with the one file
  \<^verbatim>\<open>IMG-20240305-WA0001.jpg\<close>.
\<close>

definition wa_name :: ustr where
  "wa_name = u ''IMG-20240305-WA0001.jpg''"

definition wa_catalog :: "(ustr \<times> path) list" where
  "wa_catalog = [(wa_name, [wa_name])]"

definition omitted_msg :: Message where
  "omitted_msg = msg_at 9 ''<Media omitted>''"

text \<open>
  The two characters \<^verbatim>\<open>%m\<close> takes when it takes two (\<^verbatim>\<open>1[0-2]|0[1-9]\<close>), and the two
  \<^verbatim>\<open>%d\<close> takes when it takes two (\<^verbatim>\<open>3[0-1]|[1-2]\d|0[1-9]| [1-9]\<close>).
\<close>

definition month_digits :: "nat \<Rightarrow> nat \<Rightarrow> bool" where
  "month_digits a b \<longleftrightarrow> (a = 49 \<and> 48 \<le> b \<and> b \<le> 50) \<or> (a = 48 \<and> 49 \<le> b \<and> b \<le> 57)"

definition day_digits :: "pyrt \<Rightarrow> nat \<Rightarrow> nat \<Rightarrow> bool" where
  "day_digits U a b \<longleftrightarrow>
     (a = 51 \<and> 48 \<le> b \<and> b \<le> 49) \<or> ((a = 49 \<or> a = 50) \<and> isdecimal U b)
     \<or> ((a = 48 \<or> a = 32) \<and> 49 \<le> b \<and> b \<le> 57)"

text \<open>
  The year, month and day that eight digits \<^verbatim>\<open>YYYYMMDD\<close> write, and the triples that are a
  date of the calendar.
\<close>

definition digits_date :: "pyrt \<Rightarrow> ustr \<Rightarrow> nat \<times> nat \<times> nat" where
  "digits_date U ds = (to_int U (take 4 ds), to_int U (take 2 (drop 4 ds)), to_int U (drop 6 ds))"

fun calendar_date :: "nat \<times> nat \<times> nat \<Rightarrow> bool" where
  "calendar_date (y, m, d) \<longleftrightarrow>
     1 \<le> y \<and> y \<le> 9999 \<and> 1 \<le> m \<and> m \<le> 12 \<and> 1 \<le> d \<and> d \<le> days_in_month y m"

text \<open>
  A catalog of four files: one without a date in its name, one of 2024-03-06 and two of
  2024-03-05.
\<close>

definition mixed_catalog :: "(ustr \<times> path) list" where
  "mixed_catalog =
     [(u ''a.pdf'', [u ''a.pdf'']),
      (u ''IMG-20240306-WA0007.jpg'', [u ''IMG-20240306-WA0007.jpg'']),
      (wa_name, [wa_name]),
      (u ''VID-20240305-WA0002.mp4'', [u ''sub'', u ''VID-20240305-WA0002.mp4''])]"

text \<open>
  An archive with the one file \<^verbatim>\<open>a.jpg\<close>, and a conversation of two messages that both
  name it.
\<close>

definition one_file_tree :: "tree_entry list" where
  "one_file_tree = [\<lparr> rel = [u ''a.jpg''], is_file = True \<rparr>]"

definition two_refs :: Conversation where
  "two_refs = \<lparr> chat_id = u ''c'', title = u ''c'',
                 messages = [msg_at 1 ''a.jpg'', msg_at 2 ''see a.jpg''], base_dir = u ''d'' \<rparr>"

lemmas link_eval = media_files_def path_name_def suffix_def ALL_MEDIA_EXTS_def MEDIA_EXTS_def
  references_def found_names_def finditer_def filename_pat_def generic_file_pat_def
  wa_tail_def alnum_def

lemmas str_eval = u_def cp_def isspace_def strip_def lstrip_def rstrip_def replace_def
  normalize_line_def

lemmas rt_eval = ascii_rt_def ascii_digit_def ascii_upper_def ascii_lower_def
  ascii_tolower_def ascii_toupper_def

lemmas rx_eval = rx_match_def rep_counts_def chr_def lit_def ilit_def oneof_def in_range_def
  rx_group_def digits_def white_def Let_def

lemmas header_eval = classify_def DATE_TIME_PATTERNS_def pat_bracket_24h_def
  pat_bracket_12h_def pat_dash_4y_def pat_dash_2y_def pat_bare_24h_def author_text_rx_def
  head_bracket_24h_def head_bracket_12h_def head_dash_4y_def head_dash_2y_def head_bare_24h_def
  time_rx_def date_rx_def dash_def

lemmas time_eval = parse_datetime_def stamp_def d_norm_def t_norm_def sub_class_def fmts_def
  strptime_def directive_rx_def to_int_def num_group_def found_year_def found_hour_def
  found_datetime_def valid_datetime_def days_in_month_def is_leap_def

section \<open>Properties\<close>

subsection \<open>Strings\<close>

lemma replace_from_single:
  "replace_from [c] new 0 s = concat (map (\<lambda>x. if x = c then new else [x]) s)"
  by (induction s) auto

lemma replace_delete: "replace [c] [] s = filter (\<lambda>x. x \<noteq> c) s"
  unfolding replace_def by (simp add: replace_from_single) (induction s, auto)

lemma replace_char: "replace [c] [d] s = map (\<lambda>x. if x = c then d else x) s"
  unfolding replace_def by (simp add: replace_from_single) (induction s, auto)

lemma rstrip_prefix: "\<exists>t. s = rstrip s @ t"
proof -
  have "rstrip s @ rev (takeWhile isspace (rev s))
        = rev (takeWhile isspace (rev s) @ dropWhile isspace (rev s))"
    by (simp only: rstrip_def rev_append)
  also have "\<dots> = rev (rev s)" by (simp only: takeWhile_dropWhile_id)
  finally have "rstrip s @ rev (takeWhile isspace (rev s)) = s" by simp
  then show ?thesis by metis
qed

lemma set_strip: "set (strip s) \<subseteq> set s"
proof -
  have "set (rstrip t) \<subseteq> set t" for t
    using set_dropWhileD[of _ isspace "rev t"] by (auto simp: rstrip_def)
  moreover have "set (lstrip s) \<subseteq> set s"
    using set_dropWhileD[of _ isspace s] by (auto simp: lstrip_def)
  ultimately show ?thesis unfolding strip_def by blast
qed

lemma strip_hd: "strip s \<noteq> [] \<Longrightarrow> \<not> isspace (hd (strip s))"
proof -
  assume ne: "strip s \<noteq> []"
  obtain t where t: "lstrip s = strip s @ t"
    using rstrip_prefix[of "lstrip s"] by (auto simp: strip_def)
  with ne have "hd (strip s) = hd (lstrip s)" by (metis hd_append2)
  moreover from t ne have "lstrip s \<noteq> []" by auto
  then have "\<not> isspace (hd (lstrip s))" unfolding lstrip_def by (rule hd_dropWhile)
  ultimately show ?thesis by simp
qed

lemma strip_last: "strip s \<noteq> [] \<Longrightarrow> \<not> isspace (last (strip s))"
proof -
  assume ne: "strip s \<noteq> []"
  then have "dropWhile isspace (rev (lstrip s)) \<noteq> []" by (simp add: strip_def rstrip_def)
  then have "\<not> isspace (hd (dropWhile isspace (rev (lstrip s))))" by (rule hd_dropWhile)
  moreover have "last (strip s) = hd (dropWhile isspace (rev (lstrip s)))"
    using ne by (simp add: strip_def rstrip_def last_rev)
  ultimately show ?thesis by simp
qed

subsection \<open>The line normaliser\<close>

text \<open>
  C9 as the specification states it: the normaliser removes the left-to-right and the
  right-to-left marks. The source removes U+200E only: a right-to-left mark U+200F
  (8207), which is not white space either, stays in the line.
\<close>

theorem normalize_line_keeps_rlm: "normalize_line [8207, 97] = [8207, 97]"
  by (simp add: normalize_line_def replace_def strip_def lstrip_def rstrip_def isspace_def)

text \<open>
  C9, amended: for every raw line, the normaliser removes the left-to-right marks
  (U+200E), replaces the no-break space (U+00A0) and the narrow no-break space (U+202F) by
  an ordinary space, and trims the white space at both ends; it is a total function of the
  line alone. Every other character, the right-to-left mark among them, is kept. So the
  result holds none of the three characters, and it is empty or starts and ends with a
  character that is not white space.
\<close>

theorem normalize_line_spec:
  "normalize_line raw =
     strip (map (\<lambda>c. if c = 160 \<or> c = 8239 then 32 else c) (filter (\<lambda>c. c \<noteq> 8206) raw))
   \<and> 8206 \<notin> set (normalize_line raw) \<and> 160 \<notin> set (normalize_line raw)
   \<and> 8239 \<notin> set (normalize_line raw)
   \<and> (normalize_line raw = [] \<or>
        (\<not> isspace (hd (normalize_line raw)) \<and> \<not> isspace (last (normalize_line raw))))"
proof -
  let ?m = "map (\<lambda>c. if c = 160 \<or> c = 8239 then 32 else c) (filter (\<lambda>c. c \<noteq> 8206) raw)"
  have eq: "normalize_line raw = strip ?m"
    by (simp add: normalize_line_def replace_delete replace_char)
       (intro arg_cong[where f = strip] map_cong, auto)
  have sub: "set (normalize_line raw) \<subseteq> set ?m" unfolding eq by (rule set_strip)
  have "8206 \<notin> set ?m" "160 \<notin> set ?m" "8239 \<notin> set ?m" by auto
  with sub have "8206 \<notin> set (normalize_line raw)" "160 \<notin> set (normalize_line raw)"
    "8239 \<notin> set (normalize_line raw)" by blast+
  moreover have "normalize_line raw = [] \<or>
        (\<not> isspace (hd (normalize_line raw)) \<and> \<not> isspace (last (normalize_line raw)))"
    unfolding eq using strip_hd strip_last by blast
  ultimately show ?thesis using eq by simp
qed

theorem normalize_line_spec_witness:
  "normalize_line [8206, 32, 97, 160, 8207, 8239, 98, 8239] = [97, 32, 8207, 32, 98]
   \<and> 8206 \<notin> set (normalize_line [8206, 32, 97, 160, 8207, 8239, 98, 8239])
   \<and> \<not> isspace (hd (normalize_line [8206, 32, 97, 160, 8207, 8239, 98, 8239]))
   \<and> \<not> isspace (last (normalize_line [8206, 32, 97, 160, 8207, 8239, 98, 8239]))"
  using normalize_line_spec [of "[8206, 32, 97, 160, 8207, 8239, 98, 8239]"]
  by (simp add: strip_def lstrip_def rstrip_def isspace_def)

subsection \<open>Reading the transcript\<close>

lemma first_decoded_None:
  "first_decoded rd encs = None \<longleftrightarrow> (\<forall>e \<in> set encs. rd e = None)"
  by (induction encs) (auto split: option.splits)

text \<open>
  C8: the transcript is read with exactly three encodings, tried in the order
  \<^verbatim>\<open>utf-8-sig\<close>, \<^verbatim>\<open>utf-16\<close>, \<^verbatim>\<open>utf-8\<close>, and the text of the first that decodes is the
  one that is parsed; \<^verbatim>\<open>parse_chat_text\<close> fails (the \<^verbatim>\<open>RuntimeError\<close>) if and only if all
  three fail, and a failure carries no message.
\<close>

theorem parse_chat_text_decoding:
  "encodings = [''utf-8-sig'', ''utf-16'', ''utf-8'']
   \<and> (parse_chat_text U now f = Inl RuntimeError
        \<longleftrightarrow> (\<forall>enc \<in> set encodings. read_text f enc = None))
   \<and> (read_text f ''utf-8-sig'' = Some d \<longrightarrow>
        parse_chat_text U now f
          = Inr (detect_title_from_txtname U (stem f), parse_messages U now (splitlines d)))
   \<and> (read_text f ''utf-8-sig'' = None \<and> read_text f ''utf-16'' = Some d \<longrightarrow>
        parse_chat_text U now f
          = Inr (detect_title_from_txtname U (stem f), parse_messages U now (splitlines d)))
   \<and> (read_text f ''utf-8-sig'' = None \<and> read_text f ''utf-16'' = None
        \<and> read_text f ''utf-8'' = Some d \<longrightarrow>
        parse_chat_text U now f
          = Inr (detect_title_from_txtname U (stem f), parse_messages U now (splitlines d)))"
proof -
  have a: "parse_chat_text U now f = Inl RuntimeError
           \<longleftrightarrow> (\<forall>enc \<in> set encodings. read_text f enc = None)"
    using first_decoded_None[of "read_text f" encodings]
    by (auto simp: parse_chat_text_def split: option.splits)
  show ?thesis
    using a by (auto simp: parse_chat_text_def encodings_def split: option.splits)
qed

theorem parse_chat_text_decoding_witness:
  "parse_chat_text ascii_rt fixed_clock \<lparr> stem = u ''chat'', read_text = (\<lambda>enc. None) \<rparr>
     = Inl RuntimeError
   \<and> parse_chat_text ascii_rt fixed_clock
        \<lparr> stem = u ''chat'',
          read_text = (\<lambda>enc. if enc = ''utf-16'' then Some (u ''[05/03/2024 14:30] Al: hi'')
                              else if enc = ''utf-8'' then Some (u ''other'') else None) \<rparr>
     = Inr (detect_title_from_txtname ascii_rt (u ''chat''),
            parse_messages ascii_rt fixed_clock (splitlines (u ''[05/03/2024 14:30] Al: hi'')))"
  using parse_chat_text_decoding [of ascii_rt fixed_clock
          "\<lparr> stem = u ''chat'', read_text = (\<lambda>enc. None) \<rparr>"]
        parse_chat_text_decoding [of ascii_rt fixed_clock
          "\<lparr> stem = u ''chat'',
             read_text = (\<lambda>enc. if enc = ''utf-16'' then Some (u ''[05/03/2024 14:30] Al: hi'')
                              else if enc = ''utf-8'' then Some (u ''other'') else None) \<rparr>"
          "u ''[05/03/2024 14:30] Al: hi''"]
  by simp

subsection \<open>Order of the messages\<close>

lemma sort_messages_sorted: "sorted (map msg_key (sort_messages xs))"
  unfolding sort_messages_def msg_key_def by (rule sorted_sort_key)

lemma sort_messages_stable:
  "filter (\<lambda>m. msg_key m = k) (sort_messages xs) = filter (\<lambda>m. msg_key m = k) xs"
  unfolding sort_messages_def msg_key_def by (rule sort_key_stable)

lemma sort_messages_mset: "mset (sort_messages xs) = mset xs"
  unfolding sort_messages_def by simp

lemma set_sort_messages: "set (sort_messages xs) = set xs"
  unfolding sort_messages_def by simp

lemma merge_three:
  assumes "msg_key ma < msg_key mb" "msg_key mb < msg_key mc"
  shows "merge_messages [ma, mc] [mb] = [ma, mb, mc]"
  using assms by (auto simp: merge_messages_def sort_messages_def msg_key_def)

text \<open>
  C2: the list \<^verbatim>\<open>parse_chat_text\<close> returns is sorted by timestamp, and the messages of
  one timestamp keep the order in which the parser emitted them; the merge of two
  conversations of one id holds the messages of both, sorted by timestamp; and the merge
  of messages at \<open>ta < tc\<close> with a message at \<open>tb\<close>, \<open>ta < tb < tc\<close>, is in the order
  \<open>ta\<close>, \<open>tb\<close>, \<open>tc\<close>.
\<close>

theorem messages_sorted_by_timestamp:
  "sorted (map msg_key (parse_messages U now lines))
   \<and> filter (\<lambda>m. msg_key m = k) (parse_messages U now lines)
       = filter (\<lambda>m. msg_key m = k) (emit (parse_loop U now 0 lines ([], None)))
   \<and> (parse_chat_text U now f = Inr (t, msgs) \<longrightarrow> sorted (map msg_key msgs))
   \<and> sorted (map msg_key (merge_messages xs ys))
   \<and> mset (merge_messages xs ys) = mset xs + mset ys
   \<and> (convs (chat_id conv) = Some c \<longrightarrow>
        add_conversation convs conv (chat_id conv)
          = Some (c\<lparr> messages := merge_messages (messages c) (messages conv) \<rparr>))
   \<and> (msg_key ma < msg_key mb \<and> msg_key mb < msg_key mc \<longrightarrow>
        merge_messages [ma, mc] [mb] = [ma, mb, mc])"
proof -
  have a: "sorted (map msg_key (parse_messages U now lines))"
    unfolding parse_messages_def by (rule sort_messages_sorted)
  have b: "filter (\<lambda>m. msg_key m = k) (parse_messages U now lines)
       = filter (\<lambda>m. msg_key m = k) (emit (parse_loop U now 0 lines ([], None)))"
    unfolding parse_messages_def by (rule sort_messages_stable)
  have c: "parse_chat_text U now f = Inr (t, msgs) \<longrightarrow> sorted (map msg_key msgs)"
    by (auto simp: parse_chat_text_def parse_messages_def sort_messages_sorted
             split: option.splits)
  have d: "sorted (map msg_key (merge_messages xs ys))"
    unfolding merge_messages_def by (rule sort_messages_sorted)
  have e: "mset (merge_messages xs ys) = mset xs + mset ys"
    unfolding merge_messages_def by (simp add: sort_messages_mset)
  have g: "convs (chat_id conv) = Some c \<longrightarrow>
        add_conversation convs conv (chat_id conv)
          = Some (c\<lparr> messages := merge_messages (messages c) (messages conv) \<rparr>)"
    by (simp add: add_conversation_def)
  have h: "msg_key ma < msg_key mb \<and> msg_key mb < msg_key mc \<longrightarrow>
        merge_messages [ma, mc] [mb] = [ma, mb, mc]"
    using merge_three by blast
  from a b c d e g h show ?thesis by blast
qed

theorem messages_sorted_by_timestamp_witness:
  "merge_messages [msg_at 1 ''a'', msg_at 3 ''c''] [msg_at 2 ''b'']
     = [msg_at 1 ''a'', msg_at 2 ''b'', msg_at 3 ''c'']
   \<and> add_conversation
        [u ''chat'' \<mapsto> \<lparr> chat_id = u ''chat'', title = u ''chat'',
                           messages = [msg_at 1 ''a'', msg_at 3 ''c''], base_dir = u ''d1'' \<rparr>]
        \<lparr> chat_id = u ''chat'', title = u ''chat'', messages = [msg_at 2 ''b''],
          base_dir = u ''d2'' \<rparr> (u ''chat'')
     = Some \<lparr> chat_id = u ''chat'', title = u ''chat'',
              messages = [msg_at 1 ''a'', msg_at 2 ''b'', msg_at 3 ''c''], base_dir = u ''d1'' \<rparr>
   \<and> sorted (map msg_key (parse_messages ascii_rt fixed_clock [u ''x'']))"
  using messages_sorted_by_timestamp [where ma = "msg_at 1 ''a''" and mb = "msg_at 2 ''b''"
      and mc = "msg_at 3 ''c''" and convs = "[u ''chat'' \<mapsto> \<lparr> chat_id = u ''chat'',
        title = u ''chat'', messages = [msg_at 1 ''a'', msg_at 3 ''c''], base_dir = u ''d1'' \<rparr>]"
      and conv = "\<lparr> chat_id = u ''chat'', title = u ''chat'', messages = [msg_at 2 ''b''],
          base_dir = u ''d2'' \<rparr>"
      and c = "\<lparr> chat_id = u ''chat'', title = u ''chat'',
                           messages = [msg_at 1 ''a'', msg_at 3 ''c''], base_dir = u ''d1'' \<rparr>"
      and U = ascii_rt and now = fixed_clock and lines = "[u ''x'']"]
  by (simp add: msg_key_def dt_key_def msg_at_def at_hour_def)

subsection \<open>The attachment linker\<close>

lemma extends_refl: "extends m m"
  by (simp add: extends_def)

lemma extends_trans: "extends a b \<Longrightarrow> extends b c \<Longrightarrow> extends a c"
  by (auto simp: extends_def)

lemma extends_attach: "extends m (attach U f p m)"
  by (simp add: extends_def attach_def)

lemma attach_named_extends: "extends (fst st) (fst (attach_named U media names st))"
proof (induction names arbitrary: st)
  case Nil
  then show ?case by (simp add: extends_refl)
next
  case (Cons fname rest)
  obtain msg a where st: "st = (msg, a)" by (cases st)
  show ?case
    using Cons.IH[of "(attach U fname p msg, a(fname \<mapsto> True))" for p] Cons.IH[of "(msg, a)"]
    by (auto simp: st split: option.splits intro: extends_trans[OF extends_attach])
qed

lemma link_by_text_extends: "extends (fst st) (fst (link_by_text U media st))"
  unfolding link_by_text_def by (rule attach_named_extends)

lemma link_by_date_extends: "extends (fst st) (fst (link_by_date U media st))"
  by (auto simp: link_by_date_def Let_def extends_refl extends_attach split: option.splits)

lemma for_messages_all2:
  assumes "\<And>st. R (fst st) (fst (f st))"
  shows "list_all2 R msgs (fst (for_messages f msgs a))"
proof (induction msgs arbitrary: a)
  case Nil
  then show ?case by simp
next
  case (Cons m rest)
  obtain m' a' where s: "f (m, a) = (m', a')" by (cases "f (m, a)")
  obtain r' a'' where r: "for_messages f rest a' = (r', a'')" by (cases "for_messages f rest a'")
  have "R m m'" using assms[of "(m, a)"] s by simp
  moreover have "list_all2 R rest r'" using Cons.IH[of a'] r by simp
  ultimately show ?case by (simp add: s r)
qed

lemma link_messages_extends:
  "list_all2 extends msgs (fst (link_messages U media msgs))"
proof -
  obtain m1 a1 where p1: "for_messages (link_by_text U media) msgs (unassigned media) = (m1, a1)"
    by (cases "for_messages (link_by_text U media) msgs (unassigned media)")
  have "list_all2 extends msgs m1"
    using for_messages_all2[of extends "link_by_text U media" msgs "unassigned media"]
      link_by_text_extends p1 by simp
  moreover have "list_all2 extends m1 (fst (for_messages (link_by_date U media) m1 a1))"
    using for_messages_all2[of extends "link_by_date U media"] link_by_date_extends by blast
  ultimately have "list_all2 extends msgs (fst (for_messages (link_by_date U media) m1 a1))"
    using list_all2_trans[of extends extends extends] extends_trans by blast
  then show ?thesis by (simp add: link_messages_def p1)
qed

lemma marks_refl: "marks media a a"
  by (simp add: marks_def)

lemma marks_trans: "marks media a b \<Longrightarrow> marks media b c \<Longrightarrow> marks media a c"
  unfolding marks_def by metis

lemma marks_upd: "f \<in> fst ` set media \<Longrightarrow> marks media a (a(f \<mapsto> True))"
  by (simp add: marks_def)

lemma attach_named_marks: "marks media (snd st) (snd (attach_named U media names st))"
proof (induction names arbitrary: st)
  case Nil
  then show ?case by (simp add: marks_refl)
next
  case (Cons fname rest)
  obtain msg a where st: "st = (msg, a)" by (cases st)
  show ?case
  proof (cases "map_of media fname")
    case None
    then show ?thesis using Cons.IH[of "(msg, a)"] by (simp add: st)
  next
    case (Some p)
    then have k: "fname \<in> fst ` set media" by (metis map_of_SomeD fst_conv image_eqI)
    show ?thesis
    proof (cases "a fname = Some True")
      case True
      then show ?thesis using Cons.IH[of "(msg, a)"] by (simp add: st Some)
    next
      case False
      have "marks media (a(fname \<mapsto> True))
              (snd (attach_named U media rest (attach U fname p msg, a(fname \<mapsto> True))))"
        using Cons.IH[of "(attach U fname p msg, a(fname \<mapsto> True))"] by (simp only: snd_conv)
      with marks_upd[OF k, of a]
      have "marks media a
              (snd (attach_named U media rest (attach U fname p msg, a(fname \<mapsto> True))))"
        by (rule marks_trans)
      then show ?thesis using False by (simp add: st Some)
    qed
  qed
qed

lemma date_candidate_sound:
  "date_candidate U media a d = Some (fname, p) \<Longrightarrow>
     (fname, p) \<in> set media \<and> a fname \<noteq> Some True \<and> name_date U fname = Some d"
  by (induction media) (auto split: if_splits option.splits)

lemma link_by_date_marks: "marks media (snd st) (snd (link_by_date U media st))"
proof -
  have "marks media (snd st) ((snd st)(fname \<mapsto> True))"
    if "date_candidate U media (snd st) d = Some (fname, p)" for fname p d
    using date_candidate_sound[OF that] by (intro marks_upd) force
  then show ?thesis
    by (auto simp: link_by_date_def Let_def marks_refl split: option.splits)
qed

lemma for_messages_marks:
  assumes "\<And>st. marks media (snd st) (snd (f st))"
  shows "marks media a (snd (for_messages f msgs a))"
proof (induction msgs arbitrary: a)
  case Nil
  then show ?case by (simp add: marks_refl)
next
  case (Cons m rest)
  obtain m' a' where s: "f (m, a) = (m', a')" by (cases "f (m, a)")
  obtain r' a'' where r: "for_messages f rest a' = (r', a'')" by (cases "for_messages f rest a'")
  have "marks media a a'" using assms[of "(m, a)"] s by simp
  moreover have "marks media a' a''" using Cons.IH[of a'] r by simp
  ultimately have "marks media a a''" by (rule marks_trans)
  then show ?case by (simp add: s r)
qed

lemma link_messages_marks: "marks media (unassigned media) (snd (link_messages U media msgs))"
proof -
  obtain m1 a1 where p1: "for_messages (link_by_text U media) msgs (unassigned media) = (m1, a1)"
    by (cases "for_messages (link_by_text U media) msgs (unassigned media)")
  have "marks media (unassigned media) a1"
    using for_messages_marks[of media "link_by_text U media" "unassigned media" msgs]
      attach_named_marks p1 by (simp add: link_by_text_def)
  moreover have "marks media a1 (snd (for_messages (link_by_date U media) m1 a1))"
    using for_messages_marks[of media "link_by_date U media"] link_by_date_marks by blast
  ultimately have "marks media (unassigned media)
      (snd (for_messages (link_by_date U media) m1 a1))" by (rule marks_trans)
  then show ?thesis by (simp add: link_messages_def p1)
qed

text \<open>
  C10: \<^verbatim>\<open>link_attachments\<close> only appends attachments to the messages and marks entries of
  the catalog as assigned. The id, the title and the media root of the conversation are
  unchanged; the messages are as many and in the same order as before, each with its
  timestamp, author and text unchanged and its attachments extended at the end.
\<close>

theorem link_attachments_frame:
  "chat_id (link_attachments U tree conv) = chat_id conv
   \<and> title (link_attachments U tree conv) = title conv
   \<and> base_dir (link_attachments U tree conv) = base_dir conv
   \<and> length (messages (link_attachments U tree conv)) = length (messages conv)
   \<and> list_all2 extends (messages conv) (messages (link_attachments U tree conv))
   \<and> marks (media_files U tree) (unassigned (media_files U tree))
        (snd (link_messages U (media_files U tree) (messages conv)))"
  using link_messages_extends[of "messages conv" U "media_files U tree"]
    link_messages_marks[of "media_files U tree" U "messages conv"]
  by (simp add: link_attachments_def list_all2_lengthD)

lemma named_attach: "named f (attach U fname p m) = named f m + (if fname = f then 1 else 0)"
  by (simp add: named_def attach_def make_attachment_def)

lemma attach_named_potential:
  "named f (fst (attach_named U media names st)) + credit (snd (attach_named U media names st)) f
     \<le> named f (fst st) + credit (snd st) f"
proof (induction names arbitrary: st)
  case Nil
  then show ?case by simp
next
  case (Cons fname rest)
  obtain msg a where st: "st = (msg, a)" by (cases st)
  show ?case
  proof (cases "\<exists>p. map_of media fname = Some p \<and> a fname \<noteq> Some True")
    case False
    then show ?thesis using Cons.IH[of "(msg, a)"] by (auto simp: st split: option.splits)
  next
    case True
    then obtain p where p: "map_of media fname = Some p" "a fname \<noteq> Some True" by blast
    let ?st = "(attach U fname p msg, a(fname \<mapsto> True))"
    have b: "named f (fst ?st) + credit (snd ?st) f \<le> named f (fst st) + credit (snd st) f"
      using p by (simp add: named_attach credit_def st)
    have e: "attach_named U media (fname # rest) st = attach_named U media rest ?st"
      using p by (simp add: st)
    show ?thesis unfolding e using Cons.IH[of ?st] b by (rule order_trans)
  qed
qed

lemma link_by_date_potential:
  "named f (fst (link_by_date U media st)) + credit (snd (link_by_date U media st)) f
     \<le> named f (fst st) + credit (snd st) f"
proof -
  have "named f (attach U fname p (fst st)) + credit ((snd st)(fname \<mapsto> True)) f
          \<le> named f (fst st) + credit (snd st) f"
    if "date_candidate U media (snd st) d = Some (fname, p)" for fname p d
    using date_candidate_sound[OF that] by (simp add: named_attach credit_def)
  then show ?thesis
    by (auto simp: link_by_date_def Let_def split: option.splits)
qed

lemma for_messages_potential:
  assumes "\<And>st. named f (fst (step st)) + credit (snd (step st)) f
                  \<le> named f (fst st) + credit (snd st) f"
  shows "attached_total f (fst (for_messages step msgs a)) + credit (snd (for_messages step msgs a)) f
           \<le> attached_total f msgs + credit a f"
proof (induction msgs arbitrary: a)
  case Nil
  then show ?case by simp
next
  case (Cons m rest)
  obtain m' a' where s: "step (m, a) = (m', a')" by (cases "step (m, a)")
  obtain r' a'' where r: "for_messages step rest a' = (r', a'')"
    by (cases "for_messages step rest a'")
  have "named f m' + credit a' f \<le> named f m + credit a f" using assms[of "(m, a)"] s by simp
  moreover have "attached_total f r' + credit a'' f \<le> attached_total f rest + credit a' f"
    using Cons.IH[of a'] r by simp
  ultimately show ?case by (simp add: s r attached_total_def)
qed

lemma link_messages_at_most_once:
  "attached_total f (fst (link_messages U media msgs)) \<le> attached_total f msgs + 1"
proof -
  obtain m1 a1 where p1: "for_messages (link_by_text U media) msgs (unassigned media) = (m1, a1)"
    by (cases "for_messages (link_by_text U media) msgs (unassigned media)")
  have "attached_total f m1 + credit a1 f \<le> attached_total f msgs + credit (unassigned media) f"
    using for_messages_potential[of f "link_by_text U media" msgs "unassigned media"]
      attach_named_potential p1 by (simp add: link_by_text_def)
  moreover have "attached_total f (fst (for_messages (link_by_date U media) m1 a1))
          + credit (snd (for_messages (link_by_date U media) m1 a1)) f
        \<le> attached_total f m1 + credit a1 f"
    using for_messages_potential[of f "link_by_date U media"] link_by_date_potential by blast
  moreover have "credit (unassigned media) f \<le> 1" by (simp add: credit_def)
  ultimately show ?thesis by (simp add: link_messages_def p1)
qed
lemma attach_named_keeps:
  "f \<notin> set names \<Longrightarrow>
     snd (attach_named U media names st) f = snd st f
     \<and> named f (fst (attach_named U media names st)) = named f (fst st)"
proof (induction names arbitrary: st)
  case Nil
  then show ?case by simp
next
  case (Cons fname rest)
  obtain msg a where st: "st = (msg, a)" by (cases st)
  from Cons.prems have ne: "fname \<noteq> f" and nr: "f \<notin> set rest" by auto
  show ?case
  proof (cases "\<exists>p. map_of media fname = Some p \<and> a fname \<noteq> Some True")
    case False
    then show ?thesis using Cons.IH[OF nr, of "(msg, a)"] by (auto simp: st split: option.splits)
  next
    case True
    then obtain p where p: "map_of media fname = Some p" "a fname \<noteq> Some True" by blast
    let ?st = "(attach U fname p msg, a(fname \<mapsto> True))"
    have e: "attach_named U media (fname # rest) st = attach_named U media rest ?st"
      using p by (simp add: st)
    have "snd ?st f = snd st f \<and> named f (fst ?st) = named f (fst st)"
      using ne by (simp add: st named_attach)
    then show ?thesis unfolding e using Cons.IH[OF nr, of ?st] by metis
  qed
qed

lemma attach_named_assigned:
  "snd st f = Some True \<Longrightarrow>
     snd (attach_named U media names st) f = Some True
     \<and> named f (fst (attach_named U media names st)) = named f (fst st)"
proof (induction names arbitrary: st)
  case Nil
  then show ?case by simp
next
  case (Cons fname rest)
  obtain msg a where st: "st = (msg, a)" by (cases st)
  from Cons.prems have af: "a f = Some True" by (simp add: st)
  show ?case
  proof (cases "\<exists>p. map_of media fname = Some p \<and> a fname \<noteq> Some True")
    case False
    then show ?thesis using Cons.IH[of "(msg, a)"] af by (auto simp: st split: option.splits)
  next
    case True
    then obtain p where p: "map_of media fname = Some p" "a fname \<noteq> Some True" by blast
    with af have ne: "fname \<noteq> f" by auto
    let ?st = "(attach U fname p msg, a(fname \<mapsto> True))"
    have e: "attach_named U media (fname # rest) st = attach_named U media rest ?st"
      using p by (simp add: st)
    have k: "snd ?st f = Some True" "named f (fst ?st) = named f (fst st)"
      using ne af by (simp_all add: st named_attach)
    show ?thesis unfolding e using Cons.IH[OF k(1)] k(2) by metis
  qed
qed

lemma attach_named_gets:
  "f \<in> set names \<Longrightarrow> map_of media f = Some p \<Longrightarrow> snd st f \<noteq> Some True \<Longrightarrow>
     snd (attach_named U media names st) f = Some True
     \<and> named f (fst (attach_named U media names st)) = named f (fst st) + 1"
proof (induction names arbitrary: st)
  case Nil
  then show ?case by simp
next
  case (Cons fname rest)
  obtain msg a where st: "st = (msg, a)" by (cases st)
  from Cons.prems have af: "a f \<noteq> Some True" by (simp add: st)
  show ?case
  proof (cases "fname = f")
    case True
    let ?st = "(attach U f p msg, a(f \<mapsto> True))"
    have e: "attach_named U media (fname # rest) st = attach_named U media rest ?st"
      using True Cons.prems(2) af by (simp add: st)
    have k: "snd ?st f = Some True" "named f (fst ?st) = named f (fst st) + 1"
      by (simp_all add: st named_attach)
    show ?thesis unfolding e using attach_named_assigned[OF k(1), of U media rest] k(2) by metis
  next
    case False
    with Cons.prems have fr: "f \<in> set rest" by auto
    show ?thesis
    proof (cases "\<exists>q. map_of media fname = Some q \<and> a fname \<noteq> Some True")
      case False
      then show ?thesis using Cons.IH[OF fr Cons.prems(2), of "(msg, a)"] af
        by (auto simp: st split: option.splits)
    next
      case True
      then obtain q where q: "map_of media fname = Some q" "a fname \<noteq> Some True" by blast
      let ?st = "(attach U fname q msg, a(fname \<mapsto> True))"
      have e: "attach_named U media (fname # rest) st = attach_named U media rest ?st"
        using q by (simp add: st)
      have k: "snd ?st f \<noteq> Some True" "named f (fst ?st) = named f (fst st)"
        using \<open>fname \<noteq> f\<close> af by (simp_all add: st named_attach)
      show ?thesis unfolding e using Cons.IH[OF fr Cons.prems(2) k(1)] k(2) by metis
    qed
  qed
qed

lemma link_by_date_assigned:
  "snd st f = Some True \<Longrightarrow>
     snd (link_by_date U media st) f = Some True
     \<and> named f (fst (link_by_date U media st)) = named f (fst st)"
proof -
  assume af: "snd st f = Some True"
  have "fname \<noteq> f" if "date_candidate U media (snd st) d = Some (fname, p)" for fname p d
    using date_candidate_sound[OF that] af by auto
  then show ?thesis using af
    by (auto simp: link_by_date_def Let_def named_attach split: option.splits)
qed

lemma for_messages_append:
  "for_messages step (xs @ ys) a =
     (case for_messages step xs a of
        (xs', a') \<Rightarrow> (case for_messages step ys a' of (ys', a'') \<Rightarrow> (xs' @ ys', a'')))"
  by (induction xs arbitrary: a) (auto split: prod.splits)

lemma for_messages_length: "length (fst (for_messages step msgs a)) = length msgs"
  using for_messages_all2[of "\<lambda>x y. True" step msgs a] by (simp add: list_all2_lengthD)

lemma for_messages_keeps:
  assumes "\<And>m a. m \<in> set msgs \<Longrightarrow> P a \<Longrightarrow>
             P (snd (step (m, a))) \<and> named f (fst (step (m, a))) = named f m"
    and "P a"
  shows "P (snd (for_messages step msgs a))
         \<and> map (named f) (fst (for_messages step msgs a)) = map (named f) msgs"
  using assms
proof (induction msgs arbitrary: a)
  case Nil
  then show ?case by simp
next
  case (Cons m rest)
  obtain m' a' where s: "step (m, a) = (m', a')" by (cases "step (m, a)")
  obtain r' a'' where r: "for_messages step rest a' = (r', a'')"
    by (cases "for_messages step rest a'")
  have k: "P a'" "named f m' = named f m" using Cons.prems(1)[of m a] Cons.prems(2) s by auto
  have "P (snd (for_messages step rest a'))
        \<and> map (named f) (fst (for_messages step rest a')) = map (named f) rest"
    using Cons.IH[of a'] Cons.prems(1) k(1) by simp
  then show ?case using k by (simp add: s r)
qed

lemma set_files_in_text:
  assumes "\<And>xs. set (set_order U xs) = set xs"
  shows "f \<in> set (files_in_text U s) \<longleftrightarrow> references U s f"
  by (simp add: files_in_text_def references_def assms)

lemma unassigned_not_True: "unassigned media f \<noteq> Some True"
proof
  assume "unassigned media f = Some True"
  then have "(f, True) \<in> set (map (\<lambda>(k, p). (k, False)) media)"
    unfolding unassigned_def by (rule map_of_SomeD)
  then show False by auto
qed

lemma first_reference_attached:
  assumes ord: "\<And>xs. set (set_order U xs) = set xs"
    and cat: "map_of media f = Some p"
    and pre: "\<forall>m \<in> set pre. \<not> references U (msg_text m) f"
    and ref: "references U (msg_text m) f"
  shows "named f (fst (link_messages U media (pre @ m # post)) ! length pre) = named f m + 1"
proof -
  let ?s1 = "link_by_text U media" and ?s2 = "link_by_date U media"
  obtain pre1 a1 where e1: "for_messages ?s1 pre (unassigned media) = (pre1, a1)"
    by (cases "for_messages ?s1 pre (unassigned media)")
  obtain m1 a2 where e2: "?s1 (m, a1) = (m1, a2)" by (cases "?s1 (m, a1)")
  obtain post1 a3 where e3: "for_messages ?s1 post a2 = (post1, a3)"
    by (cases "for_messages ?s1 post a2")
  have p1: "for_messages ?s1 (pre @ m # post) (unassigned media) = (pre1 @ m1 # post1, a3)"
    by (simp add: for_messages_append e1 e2 e3)
  have "a1 f \<noteq> Some True"
    using for_messages_keeps[of pre "\<lambda>a. a f \<noteq> Some True" ?s1 f "unassigned media"]
      attach_named_keeps[of f _ U media] set_files_in_text[OF ord] pre unassigned_not_True e1
    by (simp add: link_by_text_def)
  then have m1: "a2 f = Some True" "named f m1 = named f m + 1"
    using attach_named_gets[of f "files_in_text U (msg_text m)" media p "(m, a1)" U]
      set_files_in_text[OF ord] ref cat e2 by (simp_all add: link_by_text_def)
  have a3: "a3 f = Some True"
    using for_messages_keeps[of post "\<lambda>a. a f = Some True" ?s1 f a2]
      attach_named_assigned[of _ f U media] m1(1) e3 by (simp add: link_by_text_def)
  have "map (named f) (fst (for_messages ?s2 (pre1 @ m1 # post1) a3))
          = map (named f) (pre1 @ m1 # post1)"
    using for_messages_keeps[of "pre1 @ m1 # post1" "\<lambda>a. a f = Some True" ?s2 f a3]
      link_by_date_assigned[of _ f U media] a3 by simp
  then have "map (named f) (fst (link_messages U media (pre @ m # post)))
          = map (named f) (pre1 @ m1 # post1)"
    by (simp add: link_messages_def p1)
  moreover have lp: "length pre1 = length pre"
    using for_messages_length[of ?s1 pre "unassigned media"] e1 by simp
  moreover have "length pre < length (fst (link_messages U media (pre @ m # post)))"
    using for_messages_length[of ?s2 "pre1 @ m1 # post1" a3] lp
    by (simp add: link_messages_def p1)
  ultimately have "named f (fst (link_messages U media (pre @ m # post)) ! length pre)
      = map (named f) (pre1 @ m1 # post1) ! length pre"
    by (metis nth_map)
  also have "\<dots> = named f m1" using lp by (simp add: nth_append)
  finally show ?thesis using m1(2) by simp
qed


lemma two_le_sum_list:
  fixes ns :: "nat list"
  assumes "k < length ns" "j < length ns" "k \<noteq> j"
  shows "ns ! k + ns ! j \<le> sum_list ns"
proof -
  have "sum_list (ns[k := 0]) = sum_list ns - ns ! k"
    using assms(1) by (simp add: sum_list_update)
  moreover have "(ns[k := 0]) ! j \<le> sum_list (ns[k := 0])"
    using assms(2) by (intro elem_le_sum_list) simp
  moreover have "ns ! k \<le> sum_list ns" using assms(1) by (rule elem_le_sum_list)
  ultimately show ?thesis using assms(3) by simp
qed

text \<open>
  C1: in a conversation whose messages come from the parser (no attachment yet), an entry
  of the catalog is attached at most once over all the messages and both passes. When
  several messages name a catalogued file in their text, the first of them in the order of
  the list receives one attachment for it, and a message after another that names it
  receives none. Both passes leave an entry that is already marked alone: the flag is
  tested before every attach. \<open>set_order\<close> is the iteration order of a Python set, which
  holds the elements it was given.
\<close>

theorem attached_at_most_once:
  assumes fresh: "\<forall>m \<in> set (messages conv). attachments m = []"
    and ord: "\<forall>xs. set (set_order U xs) = set xs"
  shows "attached_total f (messages (link_attachments U tree conv)) \<le> 1
   \<and> (\<forall>i. i < length (messages conv) \<and> f \<in> fst ` set (media_files U tree)
          \<and> references U (msg_text (messages conv ! i)) f
          \<and> (\<forall>k<i. \<not> references U (msg_text (messages conv ! k)) f)
        \<longrightarrow> named f (messages (link_attachments U tree conv) ! i) = 1)
   \<and> (\<forall>i j. i < j \<and> j < length (messages conv) \<and> f \<in> fst ` set (media_files U tree)
          \<and> references U (msg_text (messages conv ! i)) f
          \<and> references U (msg_text (messages conv ! j)) f
        \<longrightarrow> named f (messages (link_attachments U tree conv) ! j) = 0)
   \<and> (\<forall>st. snd st f = Some True \<longrightarrow>
          named f (fst (link_by_text U (media_files U tree) st)) = named f (fst st)
          \<and> named f (fst (link_by_date U (media_files U tree) st)) = named f (fst st))"
proof -
  let ?media = "media_files U tree" and ?msgs = "messages conv"
  let ?res = "messages (link_attachments U tree conv)"
  have res: "?res = fst (link_messages U ?media ?msgs)" by (simp add: link_attachments_def)
  have len: "length ?res = length ?msgs"
    using link_messages_extends[of ?msgs U ?media] by (simp add: res list_all2_lengthD)
  have zero: "named f m = 0" if "m \<in> set ?msgs" for m
    using fresh that by (simp add: named_def)
  have "attached_total f ?msgs = 0"
    using zero by (simp add: attached_total_def)
  then have total: "attached_total f ?res \<le> 1"
    using link_messages_at_most_once[of f U ?media ?msgs] by (simp add: res)
  have first: "named f (?res ! i) = 1"
    if i: "i < length ?msgs" and cat: "f \<in> fst ` set ?media"
      and ref: "references U (msg_text (?msgs ! i)) f"
      and pre: "\<forall>k<i. \<not> references U (msg_text (?msgs ! k)) f" for i
  proof -
    obtain p where p: "map_of ?media f = Some p"
      using cat by (metis map_of_eq_None_iff not_Some_eq)
    have split: "?msgs = take i ?msgs @ ?msgs ! i # drop (Suc i) ?msgs"
      using i by (simp add: id_take_nth_drop)
    have "\<forall>m \<in> set (take i ?msgs). \<not> references U (msg_text m) f"
    proof
      fix m assume "m \<in> set (take i ?msgs)"
      then obtain k where "k < length (take i ?msgs)" "take i ?msgs ! k = m"
        by (auto simp: in_set_conv_nth)
      then have "k < i" "?msgs ! k = m" by simp_all
      with pre show "\<not> references U (msg_text m) f" by blast
    qed
    then have "named f (fst (link_messages U ?media
                 (take i ?msgs @ ?msgs ! i # drop (Suc i) ?msgs)) ! length (take i ?msgs))
               = named f (?msgs ! i) + 1"
      using first_reference_attached[of U ?media f p "take i ?msgs" "?msgs ! i"] ord p ref
      by blast
    moreover have "length (take i ?msgs) = i" using i by simp
    moreover have "named f (?msgs ! i) = 0" using zero i by simp
    ultimately show ?thesis using split by (simp add: res)
  qed
  have later: "named f (?res ! j) = 0"
    if ij: "i < j" and j: "j < length ?msgs" and cat: "f \<in> fst ` set ?media"
      and ri: "references U (msg_text (?msgs ! i)) f" for i j
  proof -
    define k where "k = (LEAST k. references U (msg_text (?msgs ! k)) f)"
    have rk: "references U (msg_text (?msgs ! k)) f" unfolding k_def using ri by (rule LeastI)
    have ki: "k \<le> i" unfolding k_def using ri by (rule Least_le)
    have "\<forall>n<k. \<not> references U (msg_text (?msgs ! n)) f"
      unfolding k_def using not_less_Least by blast
    then have "named f (?res ! k) = 1" using first[of k] ki ij j cat rk by simp
    moreover have "map (named f) ?res ! k + map (named f) ?res ! j \<le> sum_list (map (named f) ?res)"
      using ki ij j len by (intro two_le_sum_list) simp_all
    ultimately show ?thesis using total ki ij j len by (simp add: attached_total_def)
  qed
  have flag: "named f (fst (link_by_text U ?media st)) = named f (fst st)
          \<and> named f (fst (link_by_date U ?media st)) = named f (fst st)"
    if "snd st f = Some True" for st
    using attach_named_assigned[OF that, of U ?media] link_by_date_assigned[OF that, of U ?media]
    by (simp add: link_by_text_def)
  have c2: "\<forall>i. i < length ?msgs \<and> f \<in> fst ` set ?media
          \<and> references U (msg_text (?msgs ! i)) f
          \<and> (\<forall>k<i. \<not> references U (msg_text (?msgs ! k)) f)
        \<longrightarrow> named f (?res ! i) = 1"
    using first by (intro allI impI) (elim conjE)
  have c3: "\<forall>i j. i < j \<and> j < length ?msgs \<and> f \<in> fst ` set ?media
          \<and> references U (msg_text (?msgs ! i)) f
          \<and> references U (msg_text (?msgs ! j)) f
        \<longrightarrow> named f (?res ! j) = 0"
    using later by (intro allI impI) (elim conjE)
  have c4: "\<forall>st. snd st f = Some True \<longrightarrow>
          named f (fst (link_by_text U ?media st)) = named f (fst st)
          \<and> named f (fst (link_by_date U ?media st)) = named f (fst st)"
    using flag by (intro allI impI)
  show ?thesis using total c2 c3 c4 by (intro conjI)
qed

lemma two_refs_catalog: "media_files ascii_rt one_file_tree = [(u ''a.jpg'', [u ''a.jpg''])]"
  by (simp add: one_file_tree_def link_eval str_eval rt_eval)

lemma two_refs_first: "references ascii_rt (u ''a.jpg'') (u ''a.jpg'')"
  by (simp add: link_eval str_eval rt_eval rx_eval)

lemma two_refs_second: "references ascii_rt (u ''see a.jpg'') (u ''a.jpg'')"
  by (simp add: link_eval str_eval rt_eval rx_eval)

theorem attached_at_most_once_witness:
  "attached_total (u ''a.jpg'') (messages (link_attachments ascii_rt one_file_tree two_refs)) \<le> 1
   \<and> named (u ''a.jpg'') (messages (link_attachments ascii_rt one_file_tree two_refs) ! 0) = 1
   \<and> named (u ''a.jpg'') (messages (link_attachments ascii_rt one_file_tree two_refs) ! 1) = 0"
proof -
  have fresh: "\<forall>m \<in> set (messages two_refs). attachments m = []"
    by (simp add: two_refs_def msg_at_def)
  have ord: "\<forall>xs. set (set_order ascii_rt xs) = set xs" by (simp add: ascii_rt_def)
  note t = attached_at_most_once[OF fresh ord, of "u ''a.jpg''" one_file_tree]
  have cat: "u ''a.jpg'' \<in> fst ` set (media_files ascii_rt one_file_tree)"
    by (simp add: two_refs_catalog)
  have m0: "msg_text (messages two_refs ! 0) = u ''a.jpg''"
    and m1: "msg_text (messages two_refs ! 1) = u ''see a.jpg''"
      "msg_text (messages two_refs ! Suc 0) = u ''see a.jpg''"
    and len: "length (messages two_refs) = 2"
    by (simp_all add: two_refs_def msg_at_def)
  from t have a: "attached_total (u ''a.jpg'')
      (messages (link_attachments ascii_rt one_file_tree two_refs)) \<le> 1" by blast
  from t have "0 < length (messages two_refs)
          \<and> u ''a.jpg'' \<in> fst ` set (media_files ascii_rt one_file_tree)
          \<and> references ascii_rt (msg_text (messages two_refs ! 0)) (u ''a.jpg'')
          \<and> (\<forall>k<0. \<not> references ascii_rt (msg_text (messages two_refs ! k)) (u ''a.jpg''))
        \<longrightarrow> named (u ''a.jpg'') (messages (link_attachments ascii_rt one_file_tree two_refs) ! 0) = 1"
    by blast
  then have b: "named (u ''a.jpg'')
      (messages (link_attachments ascii_rt one_file_tree two_refs) ! 0) = 1"
    using cat two_refs_first by (simp add: m0 len)
  from t have "0 < (1::nat) \<and> 1 < length (messages two_refs)
          \<and> u ''a.jpg'' \<in> fst ` set (media_files ascii_rt one_file_tree)
          \<and> references ascii_rt (msg_text (messages two_refs ! 0)) (u ''a.jpg'')
          \<and> references ascii_rt (msg_text (messages two_refs ! 1)) (u ''a.jpg'')
        \<longrightarrow> named (u ''a.jpg'') (messages (link_attachments ascii_rt one_file_tree two_refs) ! 1) = 0"
    by blast
  then have c: "named (u ''a.jpg'')
      (messages (link_attachments ascii_rt one_file_tree two_refs) ! 1) = 0"
    using cat two_refs_first two_refs_second by (simp add: m0 m1 len)
  from a b c show ?thesis by simp
qed

subsection \<open>The date fallback\<close>

lemma contains_iff: "contains sub s \<longleftrightarrow> (\<exists>pre post. s = pre @ sub @ post)"
proof (induction s)
  case Nil
  then show ?case by auto
next
  case (Cons c cs)
  have a: "take (length sub) (c # cs) = sub \<longleftrightarrow> (\<exists>post. c # cs = sub @ post)"
    by (metis append_eq_conv_conj append_take_drop_id)
  have b: "(\<exists>pre post. c # cs = pre @ sub @ post)
           \<longleftrightarrow> (\<exists>post. c # cs = sub @ post) \<or> (\<exists>pre post. cs = pre @ sub @ post)"
  proof
    assume "\<exists>pre post. c # cs = pre @ sub @ post"
    then obtain pre post where e: "c # cs = pre @ sub @ post" by blast
    show "(\<exists>post. c # cs = sub @ post) \<or> (\<exists>pre post. cs = pre @ sub @ post)"
    proof (cases pre)
      case Nil
      with e show ?thesis by auto
    next
      case (Cons x xs)
      with e have "cs = xs @ sub @ post" by simp
      then show ?thesis by blast
    qed
  next
    assume "(\<exists>post. c # cs = sub @ post) \<or> (\<exists>pre post. cs = pre @ sub @ post)"
    then show "\<exists>pre post. c # cs = pre @ sub @ post"
    proof
      assume "\<exists>post. c # cs = sub @ post"
      then obtain post where "c # cs = [] @ sub @ post" by auto
      then show ?thesis by blast
    next
      assume "\<exists>pre post. cs = pre @ sub @ post"
      then obtain pre post where "c # cs = (c # pre) @ sub @ post" by auto
      then show ?thesis by blast
    qed
  qed
  show ?case using a b Cons.IH by simp
qed

lemma date_candidate_find:
  "date_candidate U media a d
     = find (\<lambda>e. a (fst e) \<noteq> Some True \<and> name_date U (fst e) = Some d) media"
  by (induction media) (auto split: option.splits)

lemma wa_name_date: "name_date ascii_rt wa_name = Some (2024, 3, 5)"
  by (simp add: name_date_def date_from_name_def wa_tail_def alnum_def wa_name_def date_of_def
        str_eval rt_eval rx_eval time_eval)

lemma placeholder_omitted: "is_placeholder U (u ''<Media omitted>'')"
proof -
  have s: "strip (u ''<Media omitted>'') = u ''<Media omitted>''" by (simp add: str_eval)
  have "contains (lower U (u ''<Media omitted>'')) (lower U (u ''<Media omitted>''))"
    unfolding contains_iff by (metis append_Nil append_Nil2)
  then show ?thesis
    by (simp add: is_placeholder_def Let_def s MEDIA_OMITTED_TOKENS_def)
qed


lemma link_by_date_first_dated:
  "link_by_date U media (msg, a) =
     (if attachments msg = [] \<and> is_placeholder U (msg_text msg)
      then (case first_dated U media a (date_of (timestamp msg)) of
              None \<Rightarrow> (msg, a)
            | Some (fname, p) \<Rightarrow> (attach U fname p msg, a(fname \<mapsto> True)))
      else (msg, a))"
  by (simp add: link_by_date_def Let_def date_candidate_find first_dated_def)

lemma is_placeholder_iff:
  "is_placeholder U s \<longleftrightarrow>
     lower U (strip s) = []
     \<or> (\<exists>tok \<in> set MEDIA_OMITTED_TOKENS. \<exists>pre post. lower U (strip s) = pre @ lower U tok @ post)"
  by (simp add: is_placeholder_def Let_def list_ex_iff contains_iff)

lemma link_by_date_one:
  "length (attachments (fst (link_by_date U media (msg, a)))) \<le> length (attachments msg) + 1"
  by (auto simp: link_by_date_def Let_def attach_def split: option.splits)

lemma omitted_example:
  assumes "msg_text msg = u ''<Media omitted>''" "attachments msg = []"
    "date_of (timestamp msg) = (2024, 3, 5)"
  shows "fst (link_by_date ascii_rt wa_catalog (msg, a))
           = (if a wa_name = Some True then msg else attach ascii_rt wa_name [wa_name] msg)"
  using assms
  by (simp add: link_by_date_first_dated placeholder_omitted first_dated_def wa_catalog_def
        wa_name_date)

lemma omitted_no_names: "files_in_text ascii_rt (u ''<Media omitted>'') = []"
  by (simp add: files_in_text_def link_eval str_eval rt_eval rx_eval)

lemma two_omitted:
  "map (named wa_name) (fst (link_messages ascii_rt wa_catalog [omitted_msg, omitted_msg])) = [1, 0]"
proof -
  have t: "msg_text omitted_msg = u ''<Media omitted>''" "attachments omitted_msg = []"
    "date_of (timestamp omitted_msg) = (2024, 3, 5)"
    by (simp_all add: omitted_msg_def msg_at_def date_of_def at_hour_def)
  have p1: "for_messages (link_by_text ascii_rt wa_catalog) [omitted_msg, omitted_msg]
              (unassigned wa_catalog) = ([omitted_msg, omitted_msg], unassigned wa_catalog)"
    by (simp add: link_by_text_def t omitted_no_names)
  have u0: "unassigned wa_catalog wa_name \<noteq> Some True"
    by (simp add: unassigned_def wa_catalog_def)
  have s1: "link_by_date ascii_rt wa_catalog (omitted_msg, unassigned wa_catalog)
      = (attach ascii_rt wa_name [wa_name] omitted_msg, (unassigned wa_catalog)(wa_name \<mapsto> True))"
    using u0 by (simp add: link_by_date_first_dated t placeholder_omitted first_dated_def
        wa_catalog_def wa_name_date)
  have s2: "link_by_date ascii_rt wa_catalog
        (omitted_msg, (unassigned wa_catalog)(wa_name \<mapsto> True))
      = (omitted_msg, (unassigned wa_catalog)(wa_name \<mapsto> True))"
    by (simp add: link_by_date_first_dated t placeholder_omitted first_dated_def
        wa_catalog_def wa_name_date)
  have p2: "for_messages (link_by_date ascii_rt wa_catalog) [omitted_msg, omitted_msg]
              (unassigned wa_catalog)
            = ([attach ascii_rt wa_name [wa_name] omitted_msg, omitted_msg],
               (unassigned wa_catalog)(wa_name \<mapsto> True))"
    by (simp add: s1 s2)
  show ?thesis
    unfolding link_messages_def p1 prod.case p2 fst_conv
    by (simp add: named_def attach_def make_attachment_def t)
qed

subsection \<open>The transcript parser\<close>

lemma parse_loop_append:
  "parse_loop U now k (xs @ ys) st
     = parse_loop U now (k + length xs) ys (parse_loop U now k xs st)"
  by (induction xs arbitrary: k st) simp_all

lemma parse_line_header:
  "classify U (normalize_line raw) = Some (d, t, a, b) \<Longrightarrow>
     parse_line U n raw st =
       (emit st,
        Some \<lparr> timestamp = (case parse_datetime U d t of Some x \<Rightarrow> x | None \<Rightarrow> n),
               author = a, msg_text = strip b, attachments = [] \<rparr>)"
  by (simp add: parse_line_def)

lemma parse_line_continuation:
  "classify U (normalize_line raw) = None \<Longrightarrow>
     parse_line U n raw (msgs, Some c)
       = (msgs, Some (c\<lparr> msg_text := msg_text c @ [10] @ normalize_line raw \<rparr>))"
  by (simp add: parse_line_def)

lemma parse_line_discard:
  "classify U (normalize_line raw) = None \<Longrightarrow> parse_line U n raw (msgs, None) = (msgs, None)"
  by (simp add: parse_line_def)

lemma parse_loop_discard:
  "\<forall>l \<in> set noise. classify U (normalize_line l) = None \<Longrightarrow>
     parse_loop U now k noise (msgs, None) = (msgs, None)"
  by (induction noise arbitrary: k) (simp_all add: parse_line_discard)

lemma parse_line_keeps: "set (fst st) \<subseteq> set (fst (parse_line U n raw st))"
  by (cases st) (auto simp: parse_line_def Let_def emit_def split: option.splits prod.splits)

lemma parse_loop_keeps: "set (fst st) \<subseteq> set (fst (parse_loop U now k lines st))"
proof (induction lines arbitrary: k st)
  case Nil
  then show ?case by simp
next
  case (Cons raw rest)
  show ?case
    using parse_line_keeps[of st U "now k" raw]
      Cons.IH[of "parse_line U (now k) raw st" "Suc k"] by auto
qed

lemma emit_keeps: "set (fst st) \<subseteq> set (emit st)"
  by (cases st) (auto simp: emit_def split: option.splits)

text \<open>
  C3: when a header line \<open>h1\<close> is followed by two lines \<open>l1\<close> and \<open>l2\<close> that match no
  header pattern and then by a header line \<open>h2\<close>, the message of \<open>h1\<close> is emitted
  with the text of the header (trimmed), a newline, \<open>l1\<close> normalised, a newline and \<open>l2\<close>
  normalised, and it is a message of the parsed conversation; and lines that match no
  header pattern before the first header leave no trace.
\<close>

theorem continuation_accumulation:
  "(classify U (normalize_line h1) = Some (d1, t1, a1, b1)
    \<and> classify U (normalize_line l1) = None \<and> classify U (normalize_line l2) = None
    \<and> classify U (normalize_line h2) = Some (d2, t2, a2, b2)
    \<longrightarrow>
      fst (parse_loop U now 0 (pre @ [h1, l1, l2, h2]) ([], None))
        = emit (parse_loop U now 0 pre ([], None))
          @ [\<lparr> timestamp = (case parse_datetime U d1 t1 of
                              Some x \<Rightarrow> x | None \<Rightarrow> now (length pre)),
                author = a1,
                msg_text = strip b1 @ [10] @ normalize_line l1 @ [10] @ normalize_line l2,
                attachments = [] \<rparr>]
      \<and> \<lparr> timestamp = (case parse_datetime U d1 t1 of
                          Some x \<Rightarrow> x | None \<Rightarrow> now (length pre)),
            author = a1,
            msg_text = strip b1 @ [10] @ normalize_line l1 @ [10] @ normalize_line l2,
            attachments = [] \<rparr>
          \<in> set (parse_messages U now (pre @ [h1, l1, l2, h2] @ post)))
   \<and> ((\<forall>l \<in> set noise. classify U (normalize_line l) = None) \<longrightarrow>
        parse_loop U now 0 (noise @ rest) ([], None)
          = parse_loop U now (length noise) rest ([], None))"
proof (intro conjI impI)
  assume h: "classify U (normalize_line h1) = Some (d1, t1, a1, b1)
    \<and> classify U (normalize_line l1) = None \<and> classify U (normalize_line l2) = None
    \<and> classify U (normalize_line h2) = Some (d2, t2, a2, b2)"
  let ?m = "\<lparr> timestamp = (case parse_datetime U d1 t1 of
                          Some x \<Rightarrow> x | None \<Rightarrow> now (length pre)),
            author = a1,
            msg_text = strip b1 @ [10] @ normalize_line l1 @ [10] @ normalize_line l2,
            attachments = [] \<rparr>"
  let ?st = "parse_loop U now 0 pre ([], None)"
  have four: "parse_loop U now (length pre) [h1, l1, l2, h2] ?st
      = (emit ?st @ [?m],
         Some \<lparr> timestamp = (case parse_datetime U d2 t2 of
                   Some x \<Rightarrow> x | None \<Rightarrow> now (Suc (Suc (Suc (length pre))))),
                author = a2, msg_text = strip b2, attachments = [] \<rparr>)"
    using h by (simp add: parse_line_header parse_line_continuation emit_def)
  show a: "fst (parse_loop U now 0 (pre @ [h1, l1, l2, h2]) ([], None)) = emit ?st @ [?m]"
  proof -
    have "parse_loop U now 0 (pre @ [h1, l1, l2, h2]) ([], None)
            = parse_loop U now (0 + length pre) [h1, l1, l2, h2] ?st"
      by (rule parse_loop_append)
    then show ?thesis by (simp only: add_0 four fst_conv)
  qed
  let ?st4 = "parse_loop U now 0 (pre @ [h1, l1, l2, h2]) ([], None)"
  let ?end = "parse_loop U now (0 + length (pre @ [h1, l1, l2, h2])) post ?st4"
  have e: "parse_loop U now 0 ((pre @ [h1, l1, l2, h2]) @ post) ([], None) = ?end"
    by (rule parse_loop_append)
  have "?m \<in> set (fst ?st4)"
    unfolding a by simp
  moreover have "set (fst ?st4) \<subseteq> set (fst ?end)"
    by (rule parse_loop_keeps)
  ultimately have "?m \<in> set (fst ?end)" by (rule rev_subsetD)
  moreover have "set (fst ?end) \<subseteq> set (emit ?end)" by (rule emit_keeps)
  ultimately have "?m \<in> set (emit ?end)" by (rule rev_subsetD)
  then have "?m \<in> set (emit (parse_loop U now 0 ((pre @ [h1, l1, l2, h2]) @ post) ([], None)))"
    by (simp only: e)
  then have "?m \<in> set (emit (parse_loop U now 0 (pre @ [h1, l1, l2, h2] @ post) ([], None)))"
    by (simp only: append_assoc)
  then show "?m \<in> set (parse_messages U now (pre @ [h1, l1, l2, h2] @ post))"
    by (simp add: parse_messages_def set_sort_messages)
next
  assume "\<forall>l \<in> set noise. classify U (normalize_line l) = None"
  then show "parse_loop U now 0 (noise @ rest) ([], None)
          = parse_loop U now (length noise) rest ([], None)"
    by (simp add: parse_loop_append parse_loop_discard)
qed

lemma sample_header_one:
  "classify ascii_rt (normalize_line (u ''1/2/24, 3:04 - A: hi''))
     = Some (u ''1/2/24'', u ''3:04'', u ''A'', u ''hi'')"
  by (simp add: header_eval rx_eval rt_eval str_eval)

lemma sample_header_two:
  "classify ascii_rt (normalize_line (u ''1/2/24, 3:05 - B: yo''))
     = Some (u ''1/2/24'', u ''3:05'', u ''B'', u ''yo'')"
  by (simp add: header_eval rx_eval rt_eval str_eval)

lemma sample_plain_lines:
  "classify ascii_rt (normalize_line (u ''x'')) = None"
  "classify ascii_rt (normalize_line (u '' y '')) = None"
  "classify ascii_rt (normalize_line (u ''banner'')) = None"
  by (simp_all add: header_eval rx_eval rt_eval str_eval)

theorem continuation_accumulation_witness:
  "\<lparr> timestamp = (case parse_datetime ascii_rt (u ''1/2/24'') (u ''3:04'') of
                     Some x \<Rightarrow> x | None \<Rightarrow> fixed_clock 0),
      author = u ''A'', msg_text = u ''hi'' @ [10] @ u ''x'' @ [10] @ u ''y'',
      attachments = [] \<rparr>
     \<in> set (parse_messages ascii_rt fixed_clock
              [u ''1/2/24, 3:04 - A: hi'', u ''x'', u '' y '', u ''1/2/24, 3:05 - B: yo''])
   \<and> parse_loop ascii_rt fixed_clock 0 [u ''banner'', u ''1/2/24, 3:04 - A: hi''] ([], None)
       = parse_loop ascii_rt fixed_clock 1 [u ''1/2/24, 3:04 - A: hi''] ([], None)"
proof -
  note t = continuation_accumulation [of ascii_rt "u ''1/2/24, 3:04 - A: hi''"
      "u ''1/2/24''" "u ''3:04''" "u ''A''" "u ''hi''" "u ''x''" "u '' y ''"
      "u ''1/2/24, 3:05 - B: yo''" "u ''1/2/24''" "u ''3:05''" "u ''B''" "u ''yo''"
      fixed_clock "[]" "[]" "[u ''banner'']" "[u ''1/2/24, 3:04 - A: hi'']"]
  have a: "\<lparr> timestamp = (case parse_datetime ascii_rt (u ''1/2/24'') (u ''3:04'') of
                     Some x \<Rightarrow> x | None \<Rightarrow> fixed_clock (length ([] :: ustr list))),
      author = u ''A'',
      msg_text = strip (u ''hi'') @ [10] @ normalize_line (u ''x'') @ [10]
                 @ normalize_line (u '' y ''),
      attachments = [] \<rparr>
     \<in> set (parse_messages ascii_rt fixed_clock
              ([] @ [u ''1/2/24, 3:04 - A: hi'', u ''x'', u '' y '', u ''1/2/24, 3:05 - B: yo'']
               @ []))"
    using t sample_header_one sample_header_two sample_plain_lines by blast
  have n: "\<forall>l \<in> set [u ''banner'']. classify ascii_rt (normalize_line l) = None"
    using sample_plain_lines(3) by simp
  have b: "parse_loop ascii_rt fixed_clock 0 ([u ''banner''] @ [u ''1/2/24, 3:04 - A: hi''])
             ([], None)
       = parse_loop ascii_rt fixed_clock (length [u ''banner''])
           [u ''1/2/24, 3:04 - A: hi''] ([], None)"
    using t n by blast
  have s: "strip (u ''hi'') = u ''hi''" "normalize_line (u ''x'') = u ''x''"
    "normalize_line (u '' y '') = u ''y''"
    by (simp_all add: str_eval)
  have a': "\<lparr> timestamp = (case parse_datetime ascii_rt (u ''1/2/24'') (u ''3:04'') of
                     Some x \<Rightarrow> x | None \<Rightarrow> fixed_clock 0),
      author = u ''A'', msg_text = u ''hi'' @ [10] @ u ''x'' @ [10] @ u ''y'',
      attachments = [] \<rparr>
     \<in> set (parse_messages ascii_rt fixed_clock
              [u ''1/2/24, 3:04 - A: hi'', u ''x'', u '' y '', u ''1/2/24, 3:05 - B: yo''])"
    using a by (simp only: s list.size append_Nil append_Nil2)
  have b': "parse_loop ascii_rt fixed_clock 0 [u ''banner'', u ''1/2/24, 3:04 - A: hi''] ([], None)
       = parse_loop ascii_rt fixed_clock 1 [u ''1/2/24, 3:04 - A: hi''] ([], None)"
    using b by (simp del: parse_loop.simps)
  from a' b' show ?thesis by (rule conjI)
qed

subsection \<open>The header patterns on the sample lines\<close>

lemma bracket_24h_on_bracket_24h: "rx_match (pat_bracket_24h ascii_rt) sample_bracket_24h \<noteq> None"
  by (simp add: sample_bracket_24h_def header_eval rx_eval rt_eval str_eval)

lemma bracket_24h_on_bracket_12h: "rx_match (pat_bracket_12h ascii_rt) sample_bracket_24h = None"
  by (simp add: sample_bracket_24h_def header_eval rx_eval rt_eval str_eval)

lemma bracket_24h_on_dash_4y: "rx_match (pat_dash_4y ascii_rt) sample_bracket_24h = None"
  by (simp add: sample_bracket_24h_def header_eval rx_eval rt_eval str_eval)

lemma bracket_24h_on_dash_2y: "rx_match (pat_dash_2y ascii_rt) sample_bracket_24h = None"
  by (simp add: sample_bracket_24h_def header_eval rx_eval rt_eval str_eval)

lemma bracket_24h_on_bare_24h: "rx_match (pat_bare_24h ascii_rt) sample_bracket_24h = None"
  by (simp add: sample_bracket_24h_def header_eval rx_eval rt_eval str_eval)

lemma bracket_12h_on_bracket_24h: "rx_match (pat_bracket_24h ascii_rt) sample_bracket_12h = None"
  by (simp add: sample_bracket_12h_def header_eval rx_eval rt_eval str_eval)

lemma bracket_12h_on_bracket_12h: "rx_match (pat_bracket_12h ascii_rt) sample_bracket_12h \<noteq> None"
  by (simp add: sample_bracket_12h_def header_eval rx_eval rt_eval str_eval)

lemma bracket_12h_on_dash_4y: "rx_match (pat_dash_4y ascii_rt) sample_bracket_12h = None"
  by (simp add: sample_bracket_12h_def header_eval rx_eval rt_eval str_eval)

lemma bracket_12h_on_dash_2y: "rx_match (pat_dash_2y ascii_rt) sample_bracket_12h = None"
  by (simp add: sample_bracket_12h_def header_eval rx_eval rt_eval str_eval)

lemma bracket_12h_on_bare_24h: "rx_match (pat_bare_24h ascii_rt) sample_bracket_12h = None"
  by (simp add: sample_bracket_12h_def header_eval rx_eval rt_eval str_eval)

lemma dash_4y_on_bracket_24h: "rx_match (pat_bracket_24h ascii_rt) sample_dash_4y = None"
  by (simp add: sample_dash_4y_def header_eval rx_eval rt_eval str_eval)

lemma dash_4y_on_bracket_12h: "rx_match (pat_bracket_12h ascii_rt) sample_dash_4y = None"
  by (simp add: sample_dash_4y_def header_eval rx_eval rt_eval str_eval)

lemma dash_4y_on_dash_4y: "rx_match (pat_dash_4y ascii_rt) sample_dash_4y \<noteq> None"
  by (simp add: sample_dash_4y_def header_eval rx_eval rt_eval str_eval)

lemma dash_4y_on_dash_2y: "rx_match (pat_dash_2y ascii_rt) sample_dash_4y = None"
  by (simp add: sample_dash_4y_def header_eval rx_eval rt_eval str_eval)

lemma dash_4y_on_bare_24h: "rx_match (pat_bare_24h ascii_rt) sample_dash_4y = None"
  by (simp add: sample_dash_4y_def header_eval rx_eval rt_eval str_eval)

lemma dash_2y_on_bracket_24h: "rx_match (pat_bracket_24h ascii_rt) sample_dash_2y = None"
  by (simp add: sample_dash_2y_def header_eval rx_eval rt_eval str_eval)

lemma dash_2y_on_bracket_12h: "rx_match (pat_bracket_12h ascii_rt) sample_dash_2y = None"
  by (simp add: sample_dash_2y_def header_eval rx_eval rt_eval str_eval)

lemma dash_2y_on_dash_4y: "rx_match (pat_dash_4y ascii_rt) sample_dash_2y \<noteq> None"
  by (simp add: sample_dash_2y_def header_eval rx_eval rt_eval str_eval)

lemma dash_2y_on_dash_2y: "rx_match (pat_dash_2y ascii_rt) sample_dash_2y \<noteq> None"
  by (simp add: sample_dash_2y_def header_eval rx_eval rt_eval str_eval)

lemma dash_2y_on_bare_24h: "rx_match (pat_bare_24h ascii_rt) sample_dash_2y = None"
  by (simp add: sample_dash_2y_def header_eval rx_eval rt_eval str_eval)

lemma bare_24h_on_bracket_24h: "rx_match (pat_bracket_24h ascii_rt) sample_bare_24h = None"
  by (simp add: sample_bare_24h_def header_eval rx_eval rt_eval str_eval)

lemma bare_24h_on_bracket_12h: "rx_match (pat_bracket_12h ascii_rt) sample_bare_24h = None"
  by (simp add: sample_bare_24h_def header_eval rx_eval rt_eval str_eval)

lemma bare_24h_on_dash_4y: "rx_match (pat_dash_4y ascii_rt) sample_bare_24h = None"
  by (simp add: sample_bare_24h_def header_eval rx_eval rt_eval str_eval)

lemma bare_24h_on_dash_2y: "rx_match (pat_dash_2y ascii_rt) sample_bare_24h = None"
  by (simp add: sample_bare_24h_def header_eval rx_eval rt_eval str_eval)

lemma bare_24h_on_bare_24h: "rx_match (pat_bare_24h ascii_rt) sample_bare_24h \<noteq> None"
  by (simp add: sample_bare_24h_def header_eval rx_eval rt_eval str_eval)

lemmas sample_matches = bracket_24h_on_bracket_24h bracket_24h_on_bracket_12h bracket_24h_on_dash_4y bracket_24h_on_dash_2y bracket_24h_on_bare_24h bracket_12h_on_bracket_24h bracket_12h_on_bracket_12h bracket_12h_on_dash_4y bracket_12h_on_dash_2y bracket_12h_on_bare_24h dash_4y_on_bracket_24h dash_4y_on_bracket_12h dash_4y_on_dash_4y dash_4y_on_dash_2y dash_4y_on_bare_24h dash_2y_on_bracket_24h dash_2y_on_bracket_12h dash_2y_on_dash_4y dash_2y_on_dash_2y dash_2y_on_bare_24h bare_24h_on_bracket_24h bare_24h_on_bracket_12h bare_24h_on_dash_4y bare_24h_on_dash_2y bare_24h_on_bare_24h

lemma indices_bracket_24h: "matching_indices ascii_rt sample_bracket_24h = [0]"
  by (simp add: matching_indices_def DATE_TIME_PATTERNS_def sample_matches del: not_None_eq)

lemma indices_bracket_12h: "matching_indices ascii_rt sample_bracket_12h = [1]"
  by (simp add: matching_indices_def DATE_TIME_PATTERNS_def sample_matches del: not_None_eq)

lemma indices_dash_4y: "matching_indices ascii_rt sample_dash_4y = [2]"
  by (simp add: matching_indices_def DATE_TIME_PATTERNS_def sample_matches del: not_None_eq)

lemma indices_dash_2y: "matching_indices ascii_rt sample_dash_2y = [2, 3]"
  by (simp add: matching_indices_def DATE_TIME_PATTERNS_def sample_matches del: not_None_eq)

lemma indices_bare_24h: "matching_indices ascii_rt sample_bare_24h = [4]"
  by (simp add: matching_indices_def DATE_TIME_PATTERNS_def sample_matches del: not_None_eq)

lemma first_match_matching:
  "first_match ps line
     = (case matching ps line of [] \<Rightarrow> None | pf # _ \<Rightarrow> map_option snd (rx_match (fst pf) line))"
  by (induction ps) (auto simp: matching_def split: option.splits)

text \<open>
  C4 as the specification states it: each sample line is matched by exactly one pattern of
  the list. The third pattern takes a year of two to four digits, so the sample with a
  two-digit year and a dash is matched by the third and by the fourth pattern.
\<close>

theorem dash_2y_sample_matches_twice: "length (matching_indices ascii_rt sample_dash_2y) = 2"
  by (simp add: indices_dash_2y)

text \<open>
  C4, amended: the classifier tries the patterns in the order bracketed 24-hour, bracketed
  12-hour, dash with a year of two to four digits, dash with a two-digit year, bare 24-hour
  with seconds, and the first pattern that matches gives the groups. Each sample line is
  matched by at least one pattern: the samples of the bracketed 24-hour, bracketed 12-hour,
  dash with four-digit year and bare formats by exactly one, the sample of the dash format
  with a two-digit year by the third and the fourth, of which the third wins.
\<close>

theorem classifier_precedence:
  "map fst (DATE_TIME_PATTERNS U)
     = [pat_bracket_24h U, pat_bracket_12h U, pat_dash_4y U, pat_dash_2y U, pat_bare_24h U]
   \<and> first_match ps line
       = (case matching ps line of
            [] \<Rightarrow> None
          | pf # _ \<Rightarrow> map_option snd (rx_match (fst pf) line))
   \<and> matching_indices ascii_rt sample_bracket_24h = [0]
   \<and> matching_indices ascii_rt sample_bracket_12h = [1]
   \<and> matching_indices ascii_rt sample_dash_4y = [2]
   \<and> matching_indices ascii_rt sample_dash_2y = [2, 3]
   \<and> matching_indices ascii_rt sample_bare_24h = [4]"
  using first_match_matching[of ps line]
  by (simp add: DATE_TIME_PATTERNS_def indices_bracket_24h indices_bracket_12h indices_dash_4y
        indices_dash_2y indices_bare_24h)

subsection \<open>The timestamp resolver on the three examples\<close>

lemma stamp_day24: "stamp ascii_rt (u ''05/03/2024'') (u ''14:30:00'') = u ''05/03/2024 14:30:00''"
  by (simp add: stamp_def d_norm_def t_norm_def sub_class_def oneof_def rt_eval str_eval)

lemma stamp_day12: "stamp ascii_rt (u ''05/03/2024'') (u ''2:30:00 PM'') = u ''05/03/2024 2:30:00 PM''"
  by (simp add: stamp_def d_norm_def t_norm_def sub_class_def oneof_def rt_eval str_eval)

lemma stamp_bad: "stamp ascii_rt (u ''32/13/2024'') (u ''99:99'') = u ''32/13/2024 99:99''"
  by (simp add: stamp_def d_norm_def t_norm_def sub_class_def oneof_def rt_eval str_eval)

lemma day24_fmt_0: "strptime ascii_rt (u ''05/03/2024 14:30:00'') ''%d/%m/%Y %H:%M:%S''
    = Some \<lparr> year = 2024, month = 3, day = 5, hour = 14, minute = 30, second = 0, microsecond = 0 \<rparr>"
  by (simp add: time_eval rx_eval rt_eval str_eval)

lemma day24_fmt_1: "strptime ascii_rt (u ''05/03/2024 14:30:00'') ''%d/%m/%Y %H:%M''
    = None"
  by (simp add: time_eval rx_eval rt_eval str_eval)

lemma day24_fmt_2: "strptime ascii_rt (u ''05/03/2024 14:30:00'') ''%d/%m/%y %H:%M:%S''
    = None"
  by (simp add: time_eval rx_eval rt_eval str_eval)

lemma day24_fmt_3: "strptime ascii_rt (u ''05/03/2024 14:30:00'') ''%d/%m/%y %H:%M''
    = None"
  by (simp add: time_eval rx_eval rt_eval str_eval)

lemma day24_fmt_4: "strptime ascii_rt (u ''05/03/2024 14:30:00'') ''%m/%d/%Y %H:%M:%S''
    = Some \<lparr> year = 2024, month = 5, day = 3, hour = 14, minute = 30, second = 0, microsecond = 0 \<rparr>"
  by (simp add: time_eval rx_eval rt_eval str_eval)

lemma day24_fmt_5: "strptime ascii_rt (u ''05/03/2024 14:30:00'') ''%m/%d/%Y %H:%M''
    = None"
  by (simp add: time_eval rx_eval rt_eval str_eval)

lemma day24_fmt_6: "strptime ascii_rt (u ''05/03/2024 14:30:00'') ''%m/%d/%y %H:%M:%S''
    = None"
  by (simp add: time_eval rx_eval rt_eval str_eval)

lemma day24_fmt_7: "strptime ascii_rt (u ''05/03/2024 14:30:00'') ''%m/%d/%y %H:%M''
    = None"
  by (simp add: time_eval rx_eval rt_eval str_eval)

lemma day24_fmt_8: "strptime ascii_rt (u ''05/03/2024 14:30:00'') ''%d/%m/%Y %I:%M:%S %p''
    = None"
  by (simp add: time_eval rx_eval rt_eval str_eval)

lemma day24_fmt_9: "strptime ascii_rt (u ''05/03/2024 14:30:00'') ''%d/%m/%Y %I:%M %p''
    = None"
  by (simp add: time_eval rx_eval rt_eval str_eval)

lemma day24_fmt_10: "strptime ascii_rt (u ''05/03/2024 14:30:00'') ''%d/%m/%y %I:%M:%S %p''
    = None"
  by (simp add: time_eval rx_eval rt_eval str_eval)

lemma day24_fmt_11: "strptime ascii_rt (u ''05/03/2024 14:30:00'') ''%d/%m/%y %I:%M %p''
    = None"
  by (simp add: time_eval rx_eval rt_eval str_eval)

lemma day24_fmt_12: "strptime ascii_rt (u ''05/03/2024 14:30:00'') ''%m/%d/%Y %I:%M:%S %p''
    = None"
  by (simp add: time_eval rx_eval rt_eval str_eval)

lemma day24_fmt_13: "strptime ascii_rt (u ''05/03/2024 14:30:00'') ''%m/%d/%Y %I:%M %p''
    = None"
  by (simp add: time_eval rx_eval rt_eval str_eval)

lemma day24_fmt_14: "strptime ascii_rt (u ''05/03/2024 14:30:00'') ''%m/%d/%y %I:%M:%S %p''
    = None"
  by (simp add: time_eval rx_eval rt_eval str_eval)

lemma day24_fmt_15: "strptime ascii_rt (u ''05/03/2024 14:30:00'') ''%m/%d/%y %I:%M %p''
    = None"
  by (simp add: time_eval rx_eval rt_eval str_eval)

lemmas day24_fmts = day24_fmt_0 day24_fmt_1 day24_fmt_2 day24_fmt_3 day24_fmt_4 day24_fmt_5 day24_fmt_6 day24_fmt_7 day24_fmt_8 day24_fmt_9 day24_fmt_10 day24_fmt_11 day24_fmt_12 day24_fmt_13 day24_fmt_14 day24_fmt_15

lemma day12_fmt_0: "strptime ascii_rt (u ''05/03/2024 2:30:00 PM'') ''%d/%m/%Y %H:%M:%S''
    = None"
  by (simp add: time_eval rx_eval rt_eval str_eval)

lemma day12_fmt_1: "strptime ascii_rt (u ''05/03/2024 2:30:00 PM'') ''%d/%m/%Y %H:%M''
    = None"
  by (simp add: time_eval rx_eval rt_eval str_eval)

lemma day12_fmt_2: "strptime ascii_rt (u ''05/03/2024 2:30:00 PM'') ''%d/%m/%y %H:%M:%S''
    = None"
  by (simp add: time_eval rx_eval rt_eval str_eval)

lemma day12_fmt_3: "strptime ascii_rt (u ''05/03/2024 2:30:00 PM'') ''%d/%m/%y %H:%M''
    = None"
  by (simp add: time_eval rx_eval rt_eval str_eval)

lemma day12_fmt_4: "strptime ascii_rt (u ''05/03/2024 2:30:00 PM'') ''%m/%d/%Y %H:%M:%S''
    = None"
  by (simp add: time_eval rx_eval rt_eval str_eval)

lemma day12_fmt_5: "strptime ascii_rt (u ''05/03/2024 2:30:00 PM'') ''%m/%d/%Y %H:%M''
    = None"
  by (simp add: time_eval rx_eval rt_eval str_eval)

lemma day12_fmt_6: "strptime ascii_rt (u ''05/03/2024 2:30:00 PM'') ''%m/%d/%y %H:%M:%S''
    = None"
  by (simp add: time_eval rx_eval rt_eval str_eval)

lemma day12_fmt_7: "strptime ascii_rt (u ''05/03/2024 2:30:00 PM'') ''%m/%d/%y %H:%M''
    = None"
  by (simp add: time_eval rx_eval rt_eval str_eval)

lemma day12_fmt_8: "strptime ascii_rt (u ''05/03/2024 2:30:00 PM'') ''%d/%m/%Y %I:%M:%S %p''
    = Some \<lparr> year = 2024, month = 3, day = 5, hour = 14, minute = 30, second = 0, microsecond = 0 \<rparr>"
  by (simp add: time_eval rx_eval rt_eval str_eval)

lemma day12_fmt_9: "strptime ascii_rt (u ''05/03/2024 2:30:00 PM'') ''%d/%m/%Y %I:%M %p''
    = None"
  by (simp add: time_eval rx_eval rt_eval str_eval)

lemma day12_fmt_10: "strptime ascii_rt (u ''05/03/2024 2:30:00 PM'') ''%d/%m/%y %I:%M:%S %p''
    = None"
  by (simp add: time_eval rx_eval rt_eval str_eval)

lemma day12_fmt_11: "strptime ascii_rt (u ''05/03/2024 2:30:00 PM'') ''%d/%m/%y %I:%M %p''
    = None"
  by (simp add: time_eval rx_eval rt_eval str_eval)

lemma day12_fmt_12: "strptime ascii_rt (u ''05/03/2024 2:30:00 PM'') ''%m/%d/%Y %I:%M:%S %p''
    = Some \<lparr> year = 2024, month = 5, day = 3, hour = 14, minute = 30, second = 0, microsecond = 0 \<rparr>"
  by (simp add: time_eval rx_eval rt_eval str_eval)

lemma day12_fmt_13: "strptime ascii_rt (u ''05/03/2024 2:30:00 PM'') ''%m/%d/%Y %I:%M %p''
    = None"
  by (simp add: time_eval rx_eval rt_eval str_eval)

lemma day12_fmt_14: "strptime ascii_rt (u ''05/03/2024 2:30:00 PM'') ''%m/%d/%y %I:%M:%S %p''
    = None"
  by (simp add: time_eval rx_eval rt_eval str_eval)

lemma day12_fmt_15: "strptime ascii_rt (u ''05/03/2024 2:30:00 PM'') ''%m/%d/%y %I:%M %p''
    = None"
  by (simp add: time_eval rx_eval rt_eval str_eval)

lemmas day12_fmts = day12_fmt_0 day12_fmt_1 day12_fmt_2 day12_fmt_3 day12_fmt_4 day12_fmt_5 day12_fmt_6 day12_fmt_7 day12_fmt_8 day12_fmt_9 day12_fmt_10 day12_fmt_11 day12_fmt_12 day12_fmt_13 day12_fmt_14 day12_fmt_15

lemma bad_fmt_0: "strptime ascii_rt (u ''32/13/2024 99:99'') ''%d/%m/%Y %H:%M:%S''
    = None"
  by (simp add: time_eval rx_eval rt_eval str_eval)

lemma bad_fmt_1: "strptime ascii_rt (u ''32/13/2024 99:99'') ''%d/%m/%Y %H:%M''
    = None"
  by (simp add: time_eval rx_eval rt_eval str_eval)

lemma bad_fmt_2: "strptime ascii_rt (u ''32/13/2024 99:99'') ''%d/%m/%y %H:%M:%S''
    = None"
  by (simp add: time_eval rx_eval rt_eval str_eval)

lemma bad_fmt_3: "strptime ascii_rt (u ''32/13/2024 99:99'') ''%d/%m/%y %H:%M''
    = None"
  by (simp add: time_eval rx_eval rt_eval str_eval)

lemma bad_fmt_4: "strptime ascii_rt (u ''32/13/2024 99:99'') ''%m/%d/%Y %H:%M:%S''
    = None"
  by (simp add: time_eval rx_eval rt_eval str_eval)

lemma bad_fmt_5: "strptime ascii_rt (u ''32/13/2024 99:99'') ''%m/%d/%Y %H:%M''
    = None"
  by (simp add: time_eval rx_eval rt_eval str_eval)

lemma bad_fmt_6: "strptime ascii_rt (u ''32/13/2024 99:99'') ''%m/%d/%y %H:%M:%S''
    = None"
  by (simp add: time_eval rx_eval rt_eval str_eval)

lemma bad_fmt_7: "strptime ascii_rt (u ''32/13/2024 99:99'') ''%m/%d/%y %H:%M''
    = None"
  by (simp add: time_eval rx_eval rt_eval str_eval)

lemma bad_fmt_8: "strptime ascii_rt (u ''32/13/2024 99:99'') ''%d/%m/%Y %I:%M:%S %p''
    = None"
  by (simp add: time_eval rx_eval rt_eval str_eval)

lemma bad_fmt_9: "strptime ascii_rt (u ''32/13/2024 99:99'') ''%d/%m/%Y %I:%M %p''
    = None"
  by (simp add: time_eval rx_eval rt_eval str_eval)

lemma bad_fmt_10: "strptime ascii_rt (u ''32/13/2024 99:99'') ''%d/%m/%y %I:%M:%S %p''
    = None"
  by (simp add: time_eval rx_eval rt_eval str_eval)

lemma bad_fmt_11: "strptime ascii_rt (u ''32/13/2024 99:99'') ''%d/%m/%y %I:%M %p''
    = None"
  by (simp add: time_eval rx_eval rt_eval str_eval)

lemma bad_fmt_12: "strptime ascii_rt (u ''32/13/2024 99:99'') ''%m/%d/%Y %I:%M:%S %p''
    = None"
  by (simp add: time_eval rx_eval rt_eval str_eval)

lemma bad_fmt_13: "strptime ascii_rt (u ''32/13/2024 99:99'') ''%m/%d/%Y %I:%M %p''
    = None"
  by (simp add: time_eval rx_eval rt_eval str_eval)

lemma bad_fmt_14: "strptime ascii_rt (u ''32/13/2024 99:99'') ''%m/%d/%y %I:%M:%S %p''
    = None"
  by (simp add: time_eval rx_eval rt_eval str_eval)

lemma bad_fmt_15: "strptime ascii_rt (u ''32/13/2024 99:99'') ''%m/%d/%y %I:%M %p''
    = None"
  by (simp add: time_eval rx_eval rt_eval str_eval)

lemmas bad_fmts = bad_fmt_0 bad_fmt_1 bad_fmt_2 bad_fmt_3 bad_fmt_4 bad_fmt_5 bad_fmt_6 bad_fmt_7 bad_fmt_8 bad_fmt_9 bad_fmt_10 bad_fmt_11 bad_fmt_12 bad_fmt_13 bad_fmt_14 bad_fmt_15

lemma first_parsed_filter:
  "first_parsed U s fs
     = (case filter (\<lambda>f. strptime U s f \<noteq> None) fs of [] \<Rightarrow> None | f # _ \<Rightarrow> strptime U s f)"
  by (induction fs) (auto split: option.splits)

lemma parse_datetime_first:
  "parse_datetime U d t
     = (case successful_formats U d t of
          [] \<Rightarrow> None
        | f # _ \<Rightarrow> strptime U (stamp U d t) f)"
  by (simp add: parse_datetime_def successful_formats_def first_parsed_filter)

lemma fmts_order:
  "fmts = concat (map (\<lambda>times. concat (map (\<lambda>date. map (\<lambda>time. date @ '' '' @ time) times)
                      [''%d/%m/%Y'', ''%d/%m/%y'', ''%m/%d/%Y'', ''%m/%d/%y'']))
            [[''%H:%M:%S'', ''%H:%M''], [''%I:%M:%S %p'', ''%I:%M %p'']])"
  by (simp add: fmts_def)

lemma resolve_day24:
  "parse_datetime ascii_rt (u ''05/03/2024'') (u ''14:30:00'')
     = Some \<lparr> year = 2024, month = 3, day = 5, hour = 14, minute = 30, second = 0,
              microsecond = 0 \<rparr>"
  "successful_formats ascii_rt (u ''05/03/2024'') (u ''14:30:00'')
     = [''%d/%m/%Y %H:%M:%S'', ''%m/%d/%Y %H:%M:%S'']"
  by (simp_all add: parse_datetime_def successful_formats_def stamp_day24 fmts_def day24_fmts)

lemma resolve_day12:
  "parse_datetime ascii_rt (u ''05/03/2024'') (u ''2:30:00 PM'')
     = Some \<lparr> year = 2024, month = 3, day = 5, hour = 14, minute = 30, second = 0,
              microsecond = 0 \<rparr>"
  "successful_formats ascii_rt (u ''05/03/2024'') (u ''2:30:00 PM'')
     = [''%d/%m/%Y %I:%M:%S %p'', ''%m/%d/%Y %I:%M:%S %p'']"
  by (simp_all add: parse_datetime_def successful_formats_def stamp_day12 fmts_def day12_fmts)

lemma resolve_bad:
  "parse_datetime ascii_rt (u ''32/13/2024'') (u ''99:99'') = None"
  "successful_formats ascii_rt (u ''32/13/2024'') (u ''99:99'') = []"
  by (simp_all add: parse_datetime_def successful_formats_def stamp_bad fmts_def bad_fmts)

lemma parse_line_fallback:
  "classify U (normalize_line raw) = Some (d, t, a, b) \<Longrightarrow> parse_datetime U d t = None \<Longrightarrow>
     snd (parse_line U now_k raw st)
       = Some \<lparr> timestamp = now_k, author = a, msg_text = strip b, attachments = [] \<rparr>"
  by (simp add: parse_line_def)

lemma unresolved_header:
  "classify ascii_rt (normalize_line (u ''[32/13/2024 99:99] A: x''))
     = Some (u ''32/13/2024'', u ''99:99'', u ''A'', u ''x'')"
  by (simp add: header_eval rx_eval rt_eval str_eval)

text \<open>
  C6: the resolver tries sixteen formats in a fixed order (the 24-hour formats before the
  12-hour ones with meridiem; within each, day-first before month-first, a four-digit
  before a two-digit year, with seconds before without) and returns the parse of the first
  format that succeeds. 05/03/2024 with 14:30:00 resolves under the day-first 24-hour
  format, 05/03/2024 with 2:30:00 PM under the day-first 12-hour format, and 32/13/2024
  with 99:99 fails under every format. When the resolver fails on a header line, the
  parser keeps the line as a message stamped with the current time.
\<close>

theorem timestamp_resolution:
  "fmts = concat (map (\<lambda>times. concat (map (\<lambda>date. map (\<lambda>time. date @ '' '' @ time) times)
                      [''%d/%m/%Y'', ''%d/%m/%y'', ''%m/%d/%Y'', ''%m/%d/%y'']))
            [[''%H:%M:%S'', ''%H:%M''], [''%I:%M:%S %p'', ''%I:%M %p'']])
   \<and> parse_datetime U d t
       = (case successful_formats U d t of
            [] \<Rightarrow> None
          | f # _ \<Rightarrow> strptime U (stamp U d t) f)
   \<and> parse_datetime ascii_rt (u ''05/03/2024'') (u ''14:30:00'')
       = Some \<lparr> year = 2024, month = 3, day = 5, hour = 14, minute = 30, second = 0,
                microsecond = 0 \<rparr>
   \<and> successful_formats ascii_rt (u ''05/03/2024'') (u ''14:30:00'')
       = [''%d/%m/%Y %H:%M:%S'', ''%m/%d/%Y %H:%M:%S'']
   \<and> parse_datetime ascii_rt (u ''05/03/2024'') (u ''2:30:00 PM'')
       = Some \<lparr> year = 2024, month = 3, day = 5, hour = 14, minute = 30, second = 0,
                microsecond = 0 \<rparr>
   \<and> successful_formats ascii_rt (u ''05/03/2024'') (u ''2:30:00 PM'')
       = [''%d/%m/%Y %I:%M:%S %p'', ''%m/%d/%Y %I:%M:%S %p'']
   \<and> parse_datetime ascii_rt (u ''32/13/2024'') (u ''99:99'') = None
   \<and> successful_formats ascii_rt (u ''32/13/2024'') (u ''99:99'') = []
   \<and> (classify U (normalize_line raw) = Some (d, t, a, b) \<and> parse_datetime U d t = None
        \<longrightarrow> snd (parse_line U now_k raw st)
              = Some \<lparr> timestamp = now_k, author = a, msg_text = strip b,
                       attachments = [] \<rparr>)"
  using fmts_order parse_datetime_first[of U d t] resolve_day24 resolve_day12 resolve_bad
    parse_line_fallback[of U raw d t a b now_k st]
  by (intro conjI impI) (erule conjE | assumption)+

theorem timestamp_resolution_witness:
  "snd (parse_line ascii_rt (fixed_clock 0) (u ''[32/13/2024 99:99] A: x'') ([], None))
     = Some \<lparr> timestamp = fixed_clock 0, author = u ''A'', msg_text = strip (u ''x''),
              attachments = [] \<rparr>"
proof -
  have "classify ascii_rt (normalize_line (u ''[32/13/2024 99:99] A: x''))
          = Some (u ''32/13/2024'', u ''99:99'', u ''A'', u ''x'')
        \<and> parse_datetime ascii_rt (u ''32/13/2024'') (u ''99:99'') = None"
    using unresolved_header resolve_bad(1) by (rule conjI)
  then show ?thesis
    using timestamp_resolution [of ascii_rt "u ''32/13/2024''" "u ''99:99''"
        "u ''[32/13/2024 99:99] A: x''" "u ''A''" "u ''x''" "fixed_clock 0" "([], None)"]
    by blast
qed

subsection \<open>What a header pattern matches\<close>

lemma in_runs_Seq:
  "x \<in> set (runs (Seq a b) st) \<longleftrightarrow> (\<exists>m \<in> set (runs a st). x \<in> set (runs b m))"
  by auto

lemma in_runs_seqs_append:
  "x \<in> set (runs (seqs (xs @ ys)) st)
     \<longleftrightarrow> (\<exists>m \<in> set (runs (seqs xs) st). x \<in> set (runs (seqs ys) m))"
  by (induction xs arbitrary: st) auto

lemma take_le_takeWhile:
  "k \<le> length (takeWhile p s) \<Longrightarrow> \<forall>x \<in> set (take k s). p x"
proof -
  assume k: "k \<le> length (takeWhile p s)"
  have "take k (xs @ ys) = take k xs" if "k \<le> length xs" for xs ys :: "'a list"
    using that by simp
  from this[OF k, of "dropWhile p s"] have "take k s = take k (takeWhile p s)" by (simp only: takeWhile_dropWhile_id)
  then have "set (take k s) \<subseteq> set (takeWhile p s)" by (metis set_take_subset)
  then show ?thesis by (auto dest: set_takeWhileD)
qed

lemma rep_counts_elem:
  "k \<in> set (rep_counts p mn mx greedy s) \<Longrightarrow> mn \<le> k \<and> k \<le> length (takeWhile p s)"
  by (auto simp: rep_counts_def Let_def split: option.splits if_splits)

lemma runs_Rep_elem:
  assumes "(j, t, g') \<in> set (runs (Rep p mn mx greedy) (i, s, g))"
  shows "\<exists>c. s = c @ t \<and> j = i + length c \<and> g' = g \<and> mn \<le> length c \<and> (\<forall>x \<in> set c. p x)"
proof -
  from assms obtain k where k: "k \<in> set (rep_counts p mn mx greedy s)"
    and e: "j = i + k" "t = drop k s" "g' = g" by auto
  from rep_counts_elem[OF k] have b: "mn \<le> k" "k \<le> length (takeWhile p s)" by auto
  have "k \<le> length s" using b(2) length_takeWhile_le[of p s] by (rule order_trans)
  then have "length (take k s) = k" by simp
  moreover have "s = take k s @ t" using e(2) by simp
  ultimately show ?thesis using e b take_le_takeWhile[OF b(2)] by metis
qed

lemma runs_Cls_elem:
  assumes "(j, t, g') \<in> set (runs (Cls p) (i, s, g))"
  shows "\<exists>c. s = c # t \<and> p c \<and> j = Suc i \<and> g' = g"
  using assms by (auto split: list.splits if_splits)

lemma runs_Grp_Rep_elem:
  assumes "(j, t, g') \<in> set (runs (Grp n (Rep p mn mx greedy)) (i, s, g))"
  shows "\<exists>c. s = c @ t \<and> j = i + length c \<and> g' = g(n \<mapsto> c) \<and> mn \<le> length c
             \<and> (\<forall>x \<in> set c. p x)"
proof -
  from assms have "(j, t, g') \<in> (\<lambda>(j, t, h). (j, t, h(n \<mapsto> take (j - i) s)))
                      ` set (runs (Rep p mn mx greedy) (i, s, g))"
    by (simp only: runs.simps(6) set_map)
  then obtain m where m0: "m \<in> set (runs (Rep p mn mx greedy) (i, s, g))"
    and e0: "(j, t, g') = (case m of (j, t, h) \<Rightarrow> (j, t, h(n \<mapsto> take (j - i) s)))" by blast
  obtain j0 t0 g0 where mm: "m = (j0, t0, g0)" by (cases m)
  from m0 mm have m: "(j0, t0, g0) \<in> set (runs (Rep p mn mx greedy) (i, s, g))" by simp
  from e0 mm have e: "j = j0" "t = t0" "g' = g0(n \<mapsto> take (j0 - i) s)" by simp_all
  from runs_Rep_elem[OF m] obtain c where c: "s = c @ t0" "j0 = i + length c" "g0 = g"
    "mn \<le> length c" "\<forall>x \<in> set c. p x" by blast
  have "take (j0 - i) s = c" using c(1,2) by simp
  then show ?thesis using e c by auto
qed

lemma runs_Eol_elem:
  assumes "(j, t, g') \<in> set (runs Eol (i, s, g))"
  shows "(s = [] \<or> s = [10]) \<and> j = i \<and> t = s \<and> g' = g"
  using assms by (auto split: if_splits)


lemma author_text_elem:
  assumes "(j, t, g) \<in> set (runs (seqs author_text_rx) (i, s, g0))"
  shows "\<exists>g3 ws w b. s = g3 @ ws @ [58, w] @ b @ t \<and> g3 \<noteq> [] \<and> 58 \<notin> set g3
           \<and> (\<forall>c \<in> set ws. isspace c) \<and> isspace w \<and> 10 \<notin> set b
           \<and> (t = [] \<or> t = [10]) \<and> g = g0(3 \<mapsto> g3, 4 \<mapsto> b)"
proof -
  from assms have "\<exists>m1 \<in> set (runs (Grp 3 (Rep (\<lambda>c. c \<noteq> cp CHR '':'') 1 None False)) (i, s, g0)).
      \<exists>m2 \<in> set (runs (white 0) m1). \<exists>m3 \<in> set (runs (chr CHR '':'') m2).
      \<exists>m4 \<in> set (runs (Cls isspace) m3).
      \<exists>m5 \<in> set (runs (Grp 4 (Rep (\<lambda>c. c \<noteq> 10) 0 None True)) m4).
      \<exists>m6 \<in> set (runs Eol m5). (j, t, g) \<in> set (runs Eps m6)"
    unfolding author_text_rx_def seqs.simps in_runs_Seq .
  then obtain m1 m2 m3 m4 m5 m6 where
    r1: "m1 \<in> set (runs (Grp 3 (Rep (\<lambda>c. c \<noteq> cp CHR '':'') 1 None False)) (i, s, g0))"
    and r2: "m2 \<in> set (runs (white 0) m1)"
    and r3: "m3 \<in> set (runs (chr CHR '':'') m2)"
    and r4: "m4 \<in> set (runs (Cls isspace) m3)"
    and r5: "m5 \<in> set (runs (Grp 4 (Rep (\<lambda>c. c \<noteq> 10) 0 None True)) m4)"
    and r6: "m6 \<in> set (runs Eol m5)"
    and r7: "(j, t, g) \<in> set (runs Eps m6)" by blast
  obtain i1 s1 g1 where m1: "m1 = (i1, s1, g1)" by (cases m1)
  obtain i2 s2 g2 where m2: "m2 = (i2, s2, g2)" by (cases m2)
  obtain i3 s3 g3' where m3: "m3 = (i3, s3, g3')" by (cases m3)
  obtain i4 s4 g4 where m4: "m4 = (i4, s4, g4)" by (cases m4)
  obtain i5 s5 g5 where m5: "m5 = (i5, s5, g5)" by (cases m5)
  have m6: "m6 = (j, t, g)" using r7 by simp
  from runs_Grp_Rep_elem[OF r1[unfolded m1]] obtain a where
    a: "s = a @ s1" "g1 = g0(3 \<mapsto> a)" "1 \<le> length a" "\<forall>x \<in> set a. x \<noteq> cp CHR '':''"
    by blast
  from runs_Rep_elem[OF r2[unfolded m1 m2 white_def]] obtain ws where
    ws: "s1 = ws @ s2" "g2 = g1" "\<forall>x \<in> set ws. isspace x" by blast
  from runs_Cls_elem[OF r3[unfolded m2 m3 chr_def]] obtain c where
    c: "s2 = c # s3" "c = cp CHR '':''" "g3' = g2" by blast
  from runs_Cls_elem[OF r4[unfolded m3 m4]] obtain w where
    w: "s3 = w # s4" "isspace w" "g4 = g3'" by blast
  from runs_Grp_Rep_elem[OF r5[unfolded m4 m5]] obtain b where
    b: "s4 = b @ s5" "g5 = g4(4 \<mapsto> b)" "\<forall>x \<in> set b. x \<noteq> 10" by blast
  from runs_Eol_elem[OF r6[unfolded m5 m6]] have
    e: "s5 = [] \<or> s5 = [10]" "t = s5" "g = g5" by auto
  have colon: "cp CHR '':'' = 58" by (simp add: cp_def)
  have "s = a @ ws @ [58, w] @ b @ t" using a(1) ws(1) c(1,2) w(1) b(1) e(2) colon by simp
  moreover have "a \<noteq> []" using a(3) by auto
  moreover have "58 \<notin> set a" using a(4) colon by auto
  moreover have "10 \<notin> set b" using b(3) by auto
  moreover have "g = g0(3 \<mapsto> a, 4 \<mapsto> b)" using e(3) b(2) w(3) c(3) ws(2) a(2) by simp
  ultimately show ?thesis using ws(3) w(2) e(1,2) by blast
qed


lemma runs_prefix:
  "(j, t, g') \<in> set (runs r (i, s, g)) \<Longrightarrow> \<exists>c. s = c @ t \<and> j = i + length c"
proof (induction r arbitrary: i s g j t g')
  case (Cls p)
  from runs_Cls_elem[OF Cls] obtain c where "s = [c] @ t" "j = i + length [c]" by auto
  then show ?case by blast
next
  case (Rep p mn mx greedy)
  from runs_Rep_elem[OF Rep] show ?case by blast
next
  case (Seq a b)
  from Seq.prems obtain m where m: "m \<in> set (runs a (i, s, g))" "(j, t, g') \<in> set (runs b m)"
    unfolding in_runs_Seq by blast
  obtain i1 s1 g1 where mm: "m = (i1, s1, g1)" by (cases m)
  from Seq.IH(1)[OF m(1)[unfolded mm]] obtain c1 where c1: "s = c1 @ s1" "i1 = i + length c1"
    by blast
  from Seq.IH(2)[OF m(2)[unfolded mm]] obtain c2 where c2: "s1 = c2 @ t" "j = i1 + length c2"
    by blast
  have "s = (c1 @ c2) @ t \<and> j = i + length (c1 @ c2)" using c1 c2 by simp
  then show ?case by blast
next
  case (Alt a b)
  from Alt.prems have "(j, t, g') \<in> set (runs a (i, s, g)) \<or> (j, t, g') \<in> set (runs b (i, s, g))"
    by simp
  then show ?case using Alt.IH by blast
next
  case (Opt a)
  from Opt.prems have "(j, t, g') \<in> set (runs a (i, s, g)) \<or> (j, t, g') = (i, s, g)"
    by auto
  then show ?case
  proof
    assume "(j, t, g') \<in> set (runs a (i, s, g))"
    then show ?thesis using Opt.IH by blast
  next
    assume "(j, t, g') = (i, s, g)"
    then have "s = [] @ t \<and> j = i + length ([] :: nat list)" by simp
    then show ?thesis by blast
  qed
next
  case (Grp n a)
  from Grp.prems have "(j, t, g') \<in> (\<lambda>(j, t, h). (j, t, h(n \<mapsto> take (j - i) s)))
                      ` set (runs a (i, s, g))"
    by (simp only: runs.simps(6) set_map)
  then obtain m where m0: "m \<in> set (runs a (i, s, g))"
    and e0: "(j, t, g') = (case m of (j, t, h) \<Rightarrow> (j, t, h(n \<mapsto> take (j - i) s)))" by blast
  obtain j0 t0 g0 where mm: "m = (j0, t0, g0)" by (cases m)
  from e0 mm have "j = j0" "t = t0" by simp_all
  with Grp.IH[OF m0[unfolded mm]] show ?case by simp
next
  case Bol
  then have "s = [] @ t \<and> j = i + length ([] :: nat list)" by (auto split: if_splits)
  then show ?case by blast
next
  case Eol
  then have "s = [] @ t \<and> j = i + length ([] :: nat list)" by (auto split: if_splits)
  then show ?case by blast
next
  case Eps
  then have "s = [] @ t \<and> j = i + length ([] :: nat list)" by simp
  then show ?case by blast
qed

lemma rx_match_elem:
  "rx_match r s = Some (j, g) \<Longrightarrow> \<exists>t. (j, t, g) \<in> set (runs r (0, s, Map.empty))"
  unfolding rx_match_def by (cases "runs r (0, s, Map.empty)") auto

lemma first_match_elem:
  "first_match ps line = Some g \<Longrightarrow> \<exists>pf \<in> set ps. \<exists>j. rx_match (fst pf) line = Some (j, g)"
  by (induction ps) (auto split: option.splits)

lemma patterns_heads:
  "pf \<in> set (DATE_TIME_PATTERNS U) \<Longrightarrow> \<exists>h \<in> set (heads U). fst pf = seqs (h @ author_text_rx)"
  by (auto simp: DATE_TIME_PATTERNS_def heads_def pat_bracket_24h_def pat_bracket_12h_def
        pat_dash_4y_def pat_dash_2y_def pat_bare_24h_def)


lemma colon_line_not_header:
  "classify ascii_rt (u ''[05/03/2024 14:30] Bob:x: hello'') = None"
  by (simp add: header_eval rx_eval rt_eval str_eval)

lemma colon_in_text_header:
  "classify ascii_rt (u ''[05/03/2024 14:30] Bob : x: hello'')
     = Some (u ''05/03/2024'', u ''14:30'', u ''Bob'', u ''x: hello'')"
  by (simp add: header_eval rx_eval rt_eval str_eval)

text \<open>
  C5 as the specification states it: the author runs to the first colon that is followed
  by a space, so that a colon before it is taken into the author. In the line below the
  first colon followed by a space is the one after \<^verbatim>\<open>Bob:x\<close>; the author group excludes
  every colon, and the line is not a header at all.
\<close>

theorem author_colon_not_absorbed:
  "classify ascii_rt (u ''[05/03/2024 14:30] Bob:x: hello'') = None"
  by (rule colon_line_not_header)

text \<open>
  C5, amended: for every line the classifier accepts as a header, the line is a timestamp
  head (one of the five, up to and with its separator), then the author group, then white
  space, then a colon, one white-space character, the text and possibly a final newline.
  The author group holds no colon, so that the colon is the first one after the head, and
  it is followed by a white-space character: a line whose first colon after the head is
  followed by anything else is not a header. The author is the group trimmed, and the
  text is everything after the colon and the white-space character, colons included.
\<close>

theorem header_author_and_text:
  "classify U line = Some (d, t, a, b) \<longrightarrow>
     58 \<notin> set a
     \<and> (\<exists>h pre rest g1 g3 ws w tail.
          h \<in> set (heads U)
          \<and> (length pre, rest, g1) \<in> set (runs (seqs h) (0, line, Map.empty))
          \<and> line = pre @ rest \<and> rx_group g1 1 = d \<and> rx_group g1 2 = t
          \<and> rest = g3 @ ws @ [58, w] @ b @ tail
          \<and> g3 \<noteq> [] \<and> 58 \<notin> set g3 \<and> a = strip g3
          \<and> (\<forall>c \<in> set ws. isspace c) \<and> isspace w
          \<and> 10 \<notin> set b \<and> (tail = [] \<or> tail = [10]))"
proof
  assume c: "classify U line = Some (d, t, a, b)"
  then obtain g where fm: "first_match (DATE_TIME_PATTERNS U) line = Some g"
    and grp: "d = rx_group g 1" "t = rx_group g 2" "a = strip (rx_group g 3)" "b = rx_group g 4"
    by (auto simp: classify_def split: option.splits)
  from first_match_elem[OF fm] obtain pf j where
    pf: "pf \<in> set (DATE_TIME_PATTERNS U)" and m: "rx_match (fst pf) line = Some (j, g)" by blast
  from patterns_heads[OF pf] obtain h where
    h: "h \<in> set (heads U)" "fst pf = seqs (h @ author_text_rx)" by blast
  from rx_match_elem[OF m] obtain tail where
    "(j, tail, g) \<in> set (runs (seqs (h @ author_text_rx)) (0, line, Map.empty))"
    unfolding h(2) by blast
  then obtain mid where mid: "mid \<in> set (runs (seqs h) (0, line, Map.empty))"
    and tl: "(j, tail, g) \<in> set (runs (seqs author_text_rx) mid)"
    unfolding in_runs_seqs_append by blast
  obtain i rest g1 where mm: "mid = (i, rest, g1)" by (cases mid)
  from runs_prefix[OF mid[unfolded mm]] obtain pre where
    pre: "line = pre @ rest" "i = 0 + length pre" by blast
  from author_text_elem[OF tl[unfolded mm]] obtain g3 ws w b' where
    s: "rest = g3 @ ws @ [58, w] @ b' @ tail" "g3 \<noteq> []" "58 \<notin> set g3"
      "\<forall>c \<in> set ws. isspace c" "isspace w" "10 \<notin> set b'" "tail = [] \<or> tail = [10]"
      "g = g1(3 \<mapsto> g3, 4 \<mapsto> b')" by blast
  have g: "rx_group g 1 = rx_group g1 1" "rx_group g 2 = rx_group g1 2" "rx_group g 3 = g3"
    "rx_group g 4 = b'"
    by (simp_all add: rx_group_def s(8))
  have a: "a = strip g3" and b: "b = b'" using grp g by simp_all
  have na: "58 \<notin> set a" using set_strip[of g3] s(3) a by blast
  have hd: "(length pre, rest, g1) \<in> set (runs (seqs h) (0, line, Map.empty))"
    using mid mm pre(2) by simp
  have "h \<in> set (heads U)
          \<and> (length pre, rest, g1) \<in> set (runs (seqs h) (0, line, Map.empty))
          \<and> line = pre @ rest \<and> rx_group g1 1 = d \<and> rx_group g1 2 = t
          \<and> rest = g3 @ ws @ [58, w] @ b @ tail
          \<and> g3 \<noteq> [] \<and> 58 \<notin> set g3 \<and> a = strip g3
          \<and> (\<forall>c \<in> set ws. isspace c) \<and> isspace w
          \<and> 10 \<notin> set b \<and> (tail = [] \<or> tail = [10])"
  proof -
    have d1: "rx_group g1 1 = d" using grp(1) g(1) by simp
    have t1: "rx_group g1 2 = t" using grp(2) g(2) by simp
    have r: "rest = g3 @ ws @ [58, w] @ b @ tail" using s(1) b by simp
    have nb: "10 \<notin> set b" using s(6) b by simp
    from h(1) hd pre(1) d1 t1 r s(2) s(3) a s(4) s(5) nb s(7) show ?thesis by (intro conjI)
  qed
  then have "\<exists>h pre rest g1 g3 ws w tail.
          h \<in> set (heads U)
          \<and> (length pre, rest, g1) \<in> set (runs (seqs h) (0, line, Map.empty))
          \<and> line = pre @ rest \<and> rx_group g1 1 = d \<and> rx_group g1 2 = t
          \<and> rest = g3 @ ws @ [58, w] @ b @ tail
          \<and> g3 \<noteq> [] \<and> 58 \<notin> set g3 \<and> a = strip g3
          \<and> (\<forall>c \<in> set ws. isspace c) \<and> isspace w
          \<and> 10 \<notin> set b \<and> (tail = [] \<or> tail = [10])"
    by (intro exI)
  with na show "58 \<notin> set a
     \<and> (\<exists>h pre rest g1 g3 ws w tail.
          h \<in> set (heads U)
          \<and> (length pre, rest, g1) \<in> set (runs (seqs h) (0, line, Map.empty))
          \<and> line = pre @ rest \<and> rx_group g1 1 = d \<and> rx_group g1 2 = t
          \<and> rest = g3 @ ws @ [58, w] @ b @ tail
          \<and> g3 \<noteq> [] \<and> 58 \<notin> set g3 \<and> a = strip g3
          \<and> (\<forall>c \<in> set ws. isspace c) \<and> isspace w
          \<and> 10 \<notin> set b \<and> (tail = [] \<or> tail = [10]))"
    by (rule conjI)
qed


theorem header_author_and_text_witness:
  "classify ascii_rt (u ''[05/03/2024 14:30] Bob : x: hello'')
     = Some (u ''05/03/2024'', u ''14:30'', u ''Bob'', u ''x: hello'')
   \<and> 58 \<notin> set (u ''Bob'') \<and> 58 \<in> set (u ''x: hello'')"
proof -
  note t = header_author_and_text [of ascii_rt "u ''[05/03/2024 14:30] Bob : x: hello''"
      "u ''05/03/2024''" "u ''14:30''" "u ''Bob''" "u ''x: hello''", THEN mp,
      OF colon_in_text_header, THEN conjunct1]
  have "58 \<in> set (u ''x: hello'')" by (simp add: u_def cp_def)
  with colon_in_text_header t show ?thesis by (intro conjI)
qed

subsection \<open>The date in a file name, and the date fallback as a whole\<close>

lemma rep_counts_max:
  "k \<in> set (rep_counts p mn (Some m) greedy s) \<Longrightarrow> k \<le> m"
  by (auto simp: rep_counts_def Let_def split: if_splits)

lemma runs_digits_elem:
  assumes "(j, t, g') \<in> set (runs (digits U mn mx) (i, s, g))"
  shows "\<exists>c. s = c @ t \<and> j = i + length c \<and> g' = g \<and> mn \<le> length c \<and> length c \<le> mx
             \<and> (\<forall>x \<in> set c. isdecimal U x)"
proof -
  from assms obtain k where k: "k \<in> set (rep_counts (isdecimal U) mn (Some mx) True s)"
    and e: "j = i + k" "t = drop k s" "g' = g" by (auto simp: digits_def)
  from rep_counts_elem[OF k] have b: "mn \<le> k" "k \<le> length (takeWhile (isdecimal U) s)" by auto
  have "k \<le> length s"
    using b(2) length_takeWhile_le[of "isdecimal U" s] by (rule order_trans)
  then have l: "length (take k s) = k" by simp
  moreover have "s = take k s @ t" using e(2) by simp
  ultimately show ?thesis
    using e b(1) rep_counts_max[OF k] take_le_takeWhile[OF b(2)] by metis
qed

lemma runs_Grp_elem:
  assumes "(j, t, g') \<in> set (runs (Grp n a) (i, s, g))"
  shows "\<exists>g0 c. (j, t, g0) \<in> set (runs a (i, s, g)) \<and> s = c @ t \<and> j = i + length c
               \<and> g' = g0(n \<mapsto> c)"
proof -
  from assms have "(j, t, g') \<in> (\<lambda>(j, t, h). (j, t, h(n \<mapsto> take (j - i) s)))
                      ` set (runs a (i, s, g))"
    by (simp only: runs.simps(6) set_map)
  then obtain m where m0: "m \<in> set (runs a (i, s, g))"
    and e0: "(j, t, g') = (case m of (j, t, h) \<Rightarrow> (j, t, h(n \<mapsto> take (j - i) s)))" by blast
  obtain j0 t0 g0 where mm: "m = (j0, t0, g0)" by (cases m)
  from e0 mm have e: "j = j0" "t = t0" "g' = g0(n \<mapsto> take (j0 - i) s)" by simp_all
  from m0 mm e have r: "(j, t, g0) \<in> set (runs a (i, s, g))" by simp
  from runs_prefix[OF r] obtain c where c: "s = c @ t" "j = i + length c" by blast
  have "take (j0 - i) s = c" using c e(1) by simp
  then have "g' = g0(n \<mapsto> c)" using e(3) by simp
  with r c show ?thesis by blast
qed

lemma wa_tail_elem:
  assumes "(j, t, g') \<in> set (runs (seqs (wa_tail U @ [Eol])) (i, s, g))"
  shows "\<exists>sq ext. s = [45, 87, 65] @ sq @ [46] @ ext @ t \<and> sq \<noteq> []
           \<and> (\<forall>c \<in> set sq. isdecimal U c) \<and> 1 \<le> length ext \<and> length ext \<le> 5
           \<and> (\<forall>c \<in> set ext. alnum c) \<and> (t = [] \<or> t = [10]) \<and> g' = g"
proof -
  from assms have "\<exists>m1 \<in> set (runs (chr CHR ''-'') (i, s, g)).
      \<exists>m2 \<in> set (runs (chr CHR ''W'') m1). \<exists>m3 \<in> set (runs (chr CHR ''A'') m2).
      \<exists>m4 \<in> set (runs (Rep (isdecimal U) 1 None True) m3).
      \<exists>m5 \<in> set (runs (chr CHR ''.'') m4).
      \<exists>m6 \<in> set (runs (Rep alnum 1 (Some 5) True) m5).
      \<exists>m7 \<in> set (runs Eol m6). (j, t, g') \<in> set (runs Eps m7)"
    unfolding wa_tail_def append.simps seqs.simps in_runs_Seq .
  then obtain m1 m2 m3 m4 m5 m6 m7 where
    r1: "m1 \<in> set (runs (chr CHR ''-'') (i, s, g))"
    and r2: "m2 \<in> set (runs (chr CHR ''W'') m1)"
    and r3: "m3 \<in> set (runs (chr CHR ''A'') m2)"
    and r4: "m4 \<in> set (runs (Rep (isdecimal U) 1 None True) m3)"
    and r5: "m5 \<in> set (runs (chr CHR ''.'') m4)"
    and r6: "m6 \<in> set (runs (Rep alnum 1 (Some 5) True) m5)"
    and r7: "m7 \<in> set (runs Eol m6)"
    and r8: "(j, t, g') \<in> set (runs Eps m7)" by blast
  obtain i1 s1 g1 where m1: "m1 = (i1, s1, g1)" by (cases m1)
  obtain i2 s2 g2 where m2: "m2 = (i2, s2, g2)" by (cases m2)
  obtain i3 s3 g3 where m3: "m3 = (i3, s3, g3)" by (cases m3)
  obtain i4 s4 g4 where m4: "m4 = (i4, s4, g4)" by (cases m4)
  obtain i5 s5 g5 where m5: "m5 = (i5, s5, g5)" by (cases m5)
  obtain i6 s6 g6 where m6: "m6 = (i6, s6, g6)" by (cases m6)
  have m7: "m7 = (j, t, g')" using r8 by simp
  have cps: "cp CHR ''-'' = 45" "cp CHR ''W'' = 87" "cp CHR ''A'' = 65" "cp CHR ''.'' = 46"
    by (simp_all add: cp_def)
  from runs_Cls_elem[OF r1[unfolded m1 chr_def]] have a1: "s = 45 # s1" "g1 = g"
    using cps by auto
  from runs_Cls_elem[OF r2[unfolded m1 m2 chr_def]] have a2: "s1 = 87 # s2" "g2 = g1"
    using cps by auto
  from runs_Cls_elem[OF r3[unfolded m2 m3 chr_def]] have a3: "s2 = 65 # s3" "g3 = g2"
    using cps by auto
  from runs_Rep_elem[OF r4[unfolded m3 m4]] obtain sq where
    sq: "s3 = sq @ s4" "g4 = g3" "1 \<le> length sq" "\<forall>x \<in> set sq. isdecimal U x" by blast
  from runs_Cls_elem[OF r5[unfolded m4 m5 chr_def]] have a5: "s4 = 46 # s5" "g5 = g4"
    using cps by auto
  from r6[unfolded m5 m6] obtain k where k: "k \<in> set (rep_counts alnum 1 (Some 5) True s5)"
    and ek: "s6 = drop k s5" "g6 = g5" by auto
  from rep_counts_elem[OF k] have kb: "1 \<le> k" "k \<le> length (takeWhile alnum s5)" by auto
  have kl: "k \<le> length s5" using kb(2) length_takeWhile_le[of alnum s5] by (rule order_trans)
  define ext where "ext = take k s5"
  have ext: "s5 = ext @ s6" "length ext = k" "\<forall>x \<in> set ext. alnum x"
    using ek(1) kl take_le_takeWhile[OF kb(2)] by (simp_all add: ext_def)
  from runs_Eol_elem[OF r7[unfolded m6 m7]] have
    e: "s6 = [] \<or> s6 = [10]" "t = s6" "g' = g6" by auto
  have "s = [45, 87, 65] @ sq @ [46] @ ext @ t"
    using a1(1) a2(1) a3(1) sq(1) a5(1) ext(1) e(2) by simp
  moreover have "sq \<noteq> []" using sq(3) by auto
  moreover have "1 \<le> length ext" "length ext \<le> 5"
    using ext(2) kb(1) rep_counts_max[OF k] by simp_all
  moreover have "g' = g" using e(3) ek(2) a5(2) sq(2) a3(2) a2(2) a1(2) by simp
  ultimately show ?thesis using sq(4) ext(3) e(1,2) by blast
qed


lemma date_from_name_elem:
  assumes "(j, t, g) \<in> set (runs (date_from_name U) (0, fname, Map.empty))"
  shows "\<exists>pre ds sq ext. fname = pre @ [45] @ ds @ [45, 87, 65] @ sq @ [46] @ ext @ t
           \<and> 10 \<notin> set pre \<and> length ds = 8 \<and> (\<forall>c \<in> set ds. isdecimal U c) \<and> sq \<noteq> []
           \<and> (\<forall>c \<in> set sq. isdecimal U c) \<and> 1 \<le> length ext \<and> length ext \<le> 5
           \<and> (\<forall>c \<in> set ext. alnum c) \<and> (t = [] \<or> t = [10]) \<and> rx_group g 1 = ds"
proof -
  let ?front = "[Rep (\<lambda>c. c \<noteq> 10) 0 None True, chr CHR ''-'', Grp 1 (digits U 8 8)]"
  have d: "date_from_name U = seqs (?front @ (wa_tail U @ [Eol]))"
    by (simp add: date_from_name_def)
  from assms obtain mid where mid: "mid \<in> set (runs (seqs ?front) (0, fname, Map.empty))"
    and tl: "(j, t, g) \<in> set (runs (seqs (wa_tail U @ [Eol])) mid)"
    unfolding d in_runs_seqs_append by blast
  from mid have "\<exists>m1 \<in> set (runs (Rep (\<lambda>c. c \<noteq> 10) 0 None True) (0, fname, Map.empty)).
      \<exists>m2 \<in> set (runs (chr CHR ''-'') m1). \<exists>m3 \<in> set (runs (Grp 1 (digits U 8 8)) m2).
      mid \<in> set (runs Eps m3)"
    unfolding seqs.simps in_runs_Seq .
  then obtain m1 m2 m3' where
    r1: "m1 \<in> set (runs (Rep (\<lambda>c. c \<noteq> 10) 0 None True) (0, fname, Map.empty))"
    and r2: "m2 \<in> set (runs (chr CHR ''-'') m1)"
    and r3': "m3' \<in> set (runs (Grp 1 (digits U 8 8)) m2)"
    and r4: "mid \<in> set (runs Eps m3')" by blast
  have "mid = m3'" using r4 by simp
  with r3' have r3: "mid \<in> set (runs (Grp 1 (digits U 8 8)) m2)" by simp
  obtain i1 s1 g1 where m1: "m1 = (i1, s1, g1)" by (cases m1)
  obtain i2 s2 g2 where m2: "m2 = (i2, s2, g2)" by (cases m2)
  obtain i3 s3 g3 where m3: "mid = (i3, s3, g3)" by (cases mid)
  from runs_Rep_elem[OF r1[unfolded m1]] obtain pre where
    pre: "fname = pre @ s1" "g1 = Map.empty" "\<forall>x \<in> set pre. x \<noteq> 10" by blast
  have "cp CHR ''-'' = 45" by (simp add: cp_def)
  with runs_Cls_elem[OF r2[unfolded m1 m2 chr_def]] have a2: "s1 = 45 # s2" "g2 = g1" by auto
  from runs_Grp_elem[OF r3[unfolded m2 m3]] obtain g0 ds where
    ds: "(i3, s3, g0) \<in> set (runs (digits U 8 8) (i2, s2, g2))" "s2 = ds @ s3"
      "i3 = i2 + length ds" "g3 = g0(1 \<mapsto> ds)" by blast
  from runs_digits_elem[OF ds(1)] obtain c where
    c: "s2 = c @ s3" "8 \<le> length c" "length c \<le> 8" "\<forall>x \<in> set c. isdecimal U x" by blast
  have cd: "c = ds" using c(1) ds(2) by simp
  from wa_tail_elem[OF tl[unfolded m3]] obtain sq ext where
    w: "s3 = [45, 87, 65] @ sq @ [46] @ ext @ t" "sq \<noteq> []" "\<forall>c \<in> set sq. isdecimal U c"
      "1 \<le> length ext" "length ext \<le> 5" "\<forall>c \<in> set ext. alnum c" "t = [] \<or> t = [10]"
      "g = g3" by blast
  have "fname = pre @ [45] @ ds @ [45, 87, 65] @ sq @ [46] @ ext @ t"
    using pre(1) a2(1) ds(2) w(1) by simp
  moreover have "10 \<notin> set pre" using pre(3) by auto
  moreover have "length ds = 8" using c(2,3) cd by simp
  moreover have "\<forall>c \<in> set ds. isdecimal U c" using c(4) cd by simp
  moreover have "rx_group g 1 = ds" using w(8) ds(4) by (simp add: rx_group_def)
  ultimately show ?thesis using w(2-7) by blast
qed

lemma rep_counts_mem:
  "mn \<le> k \<Longrightarrow> k \<le> length (takeWhile p s) \<Longrightarrow> (\<And>m. mx = Some m \<Longrightarrow> k \<le> m)
     \<Longrightarrow> k \<in> set (rep_counts p mn mx greedy s)"
  by (cases mx) (auto simp: rep_counts_def Let_def)

lemma runs_Rep_mem:
  assumes "\<forall>x \<in> set c. p x" "mn \<le> length c" "\<And>m. mx = Some m \<Longrightarrow> length c \<le> m"
  shows "(i + length c, t, g) \<in> set (runs (Rep p mn mx greedy) (i, c @ t, g))"
proof -
  have "takeWhile p (c @ t) = c @ takeWhile p t" using assms(1) by (simp add: takeWhile_append2)
  then have "length c \<le> length (takeWhile p (c @ t))" by simp
  from rep_counts_mem[OF assms(2) this assms(3)]
  have "length c \<in> set (rep_counts p mn mx greedy (c @ t))" by blast
  then have "(i + length c, drop (length c) (c @ t), g)
      \<in> (\<lambda>k. (i + k, drop k (c @ t), g)) ` set (rep_counts p mn mx greedy (c @ t))"
    by (rule imageI)
  then show ?thesis by simp
qed

lemma runs_Cls_mem: "p c \<Longrightarrow> (Suc i, t, g) \<in> set (runs (Cls p) (i, c # t, g))"
  by simp

lemma runs_Grp_mem:
  "(i + length c, t, g') \<in> set (runs a (i, c @ t, g))
     \<Longrightarrow> (i + length c, t, g'(n \<mapsto> c)) \<in> set (runs (Grp n a) (i, c @ t, g))"
  by (force simp: image_iff)

lemma runs_Seq_mem:
  "m \<in> set (runs a st) \<Longrightarrow> x \<in> set (runs b m) \<Longrightarrow> x \<in> set (runs (Seq a b) st)"
  by auto

lemma split_at_last:
  assumes "xs @ a # ys = xs' @ a # ys'" "a \<notin> set ys" "a \<notin> set ys'"
  shows "xs = xs' \<and> ys = ys'"
proof -
  have "rev ys @ a # rev xs = rev ys' @ a # rev xs'"
    using arg_cong[OF assms(1), of rev] by simp
  moreover have "takeWhile (\<lambda>x. x \<noteq> a) (rev ys @ a # rev xs) = rev ys"
    using assms(2) by (auto simp: takeWhile_tail)
  moreover have "takeWhile (\<lambda>x. x \<noteq> a) (rev ys' @ a # rev xs') = rev ys'"
    using assms(3) by (auto simp: takeWhile_tail)
  ultimately have "rev ys = rev ys'" by simp
  then have "ys = ys'" by simp
  with assms(1) show ?thesis by simp
qed

lemma date_from_name_mem:
  assumes "10 \<notin> set pre" "length ds = 8" "\<forall>c \<in> set ds. isdecimal U c" "sq \<noteq> []"
    "\<forall>c \<in> set sq. isdecimal U c" "1 \<le> length ext" "length ext \<le> 5" "\<forall>c \<in> set ext. alnum c"
    "t = [] \<or> t = [10]"
  shows "\<exists>j g. (j, t, g)
     \<in> set (runs (date_from_name U)
               (0, pre @ [45] @ ds @ [45, 87, 65] @ sq @ [46] @ ext @ t, Map.empty))"
proof -
  let ?s8 = "ext @ t"
  let ?s7 = "46 # ?s8"
  let ?s6 = "sq @ ?s7"
  let ?s5 = "65 # ?s6"
  let ?s4 = "87 # ?s5"
  let ?s3 = "45 # ?s4"
  let ?s2 = "ds @ ?s3"
  let ?s1 = "45 # ?s2"
  let ?i1 = "0 + length pre"
  let ?i3 = "Suc ?i1 + length ds"
  let ?i6 = "Suc (Suc (Suc ?i3)) + length sq"
  let ?i8 = "Suc ?i6 + length ext"
  let ?g = "Map.empty(1 \<mapsto> ds)"
  have r1: "(?i1, ?s1, Map.empty) \<in> set (runs (Rep (\<lambda>c. c \<noteq> 10) 0 None True) (0, pre @ ?s1, Map.empty))"
    using assms(1) by (intro runs_Rep_mem) auto
  have r2: "(Suc ?i1, ?s2, Map.empty) \<in> set (runs (chr CHR ''-'') (?i1, ?s1, Map.empty))"
    unfolding chr_def by (rule runs_Cls_mem) (simp add: cp_def)
  have "(?i3, ?s3, Map.empty) \<in> set (runs (digits U 8 8) (Suc ?i1, ?s2, Map.empty))"
    unfolding digits_def using assms(2,3) by (intro runs_Rep_mem) simp_all
  then have r3: "(?i3, ?s3, ?g) \<in> set (runs (Grp 1 (digits U 8 8)) (Suc ?i1, ?s2, Map.empty))"
    by (rule runs_Grp_mem)
  have r4: "(Suc ?i3, ?s4, ?g) \<in> set (runs (chr CHR ''-'') (?i3, ?s3, ?g))"
    unfolding chr_def by (rule runs_Cls_mem) (simp add: cp_def)
  have r5: "(Suc (Suc ?i3), ?s5, ?g) \<in> set (runs (chr CHR ''W'') (Suc ?i3, ?s4, ?g))"
    unfolding chr_def by (rule runs_Cls_mem) (simp add: cp_def)
  have r6: "(Suc (Suc (Suc ?i3)), ?s6, ?g) \<in> set (runs (chr CHR ''A'') (Suc (Suc ?i3), ?s5, ?g))"
    unfolding chr_def by (rule runs_Cls_mem) (simp add: cp_def)
  have r7: "(?i6, ?s7, ?g) \<in> set (runs (Rep (isdecimal U) 1 None True) (Suc (Suc (Suc ?i3)), ?s6, ?g))"
    using assms(4,5) by (intro runs_Rep_mem) (simp_all add: Suc_le_eq)
  have r8: "(Suc ?i6, ?s8, ?g) \<in> set (runs (chr CHR ''.'') (?i6, ?s7, ?g))"
    unfolding chr_def by (rule runs_Cls_mem) (simp add: cp_def)
  have r9: "(?i8, t, ?g) \<in> set (runs (Rep alnum 1 (Some 5) True) (Suc ?i6, ?s8, ?g))"
    using assms(6,7,8) by (intro runs_Rep_mem) simp_all
  have r10: "(?i8, t, ?g) \<in> set (runs Eol (?i8, t, ?g))"
    using assms(9) by simp
  have r11: "(?i8, t, ?g) \<in> set (runs Eps (?i8, t, ?g))" by simp
  have d: "date_from_name U = Seq (Rep (\<lambda>c. c \<noteq> 10) 0 None True) (Seq (chr CHR ''-'')
      (Seq (Grp 1 (digits U 8 8)) (Seq (chr CHR ''-'') (Seq (chr CHR ''W'') (Seq (chr CHR ''A'')
      (Seq (Rep (isdecimal U) 1 None True) (Seq (chr CHR ''.'') (Seq (Rep alnum 1 (Some 5) True)
      (Seq Eol Eps)))))))))"
    by (simp add: date_from_name_def wa_tail_def)
  note c = runs_Seq_mem[OF r1 runs_Seq_mem[OF r2 runs_Seq_mem[OF r3 runs_Seq_mem[OF r4
      runs_Seq_mem[OF r5 runs_Seq_mem[OF r6 runs_Seq_mem[OF r7 runs_Seq_mem[OF r8
      runs_Seq_mem[OF r9 runs_Seq_mem[OF r10 r11]]]]]]]]]]
  have "(?i8, t, ?g) \<in> set (runs (date_from_name U) (0, pre @ ?s1, Map.empty))"
    unfolding d by (rule c)
  then show ?thesis by auto
qed

lemma date_from_name_unique:
  assumes f: "pre @ [45] @ ds @ [45, 87, 65] @ sq @ [46] @ ext @ t
            = pre' @ [45] @ ds' @ [45, 87, 65] @ sq' @ [46] @ ext' @ t'"
    and l: "length ds = 8" "length ds' = 8"
    and s: "\<forall>c \<in> set sq. isdecimal U c" "\<forall>c \<in> set sq'. isdecimal U c" "\<not> isdecimal U 45"
    and e: "ext \<noteq> []" "\<forall>c \<in> set ext. alnum c" "ext' \<noteq> []" "\<forall>c \<in> set ext'. alnum c"
    and t: "t = [] \<or> t = [10]" "t' = [] \<or> t' = [10]"
  shows "ds = ds'"
proof -
  have a: "\<not> alnum 46" "\<not> alnum 10" "\<not> alnum 45"
    by (simp_all add: alnum_def in_range_def cp_def)
  have n46: "46 \<notin> set (ext @ t)" "46 \<notin> set (ext' @ t')"
    using e(2,4) t a(1) by auto
  have "(pre @ [45] @ ds @ [45, 87, 65] @ sq) @ 46 # (ext @ t)
      = (pre' @ [45] @ ds' @ [45, 87, 65] @ sq') @ 46 # (ext' @ t')"
    using f by simp
  from split_at_last[OF this n46]
  have h: "pre @ [45] @ ds @ [45, 87, 65] @ sq = pre' @ [45] @ ds' @ [45, 87, 65] @ sq'"
    by blast
  have n45: "45 \<notin> set ([87, 65] @ sq)" "45 \<notin> set ([87, 65] @ sq')"
    using s by auto
  have "(pre @ [45] @ ds) @ 45 # ([87, 65] @ sq) = (pre' @ [45] @ ds') @ 45 # ([87, 65] @ sq')"
    using h by simp
  from split_at_last[OF this n45] have p: "(pre @ [45]) @ ds = (pre' @ [45]) @ ds'" by simp
  have "length ds = length ds'" using l by simp
  then have "((pre @ [45]) @ ds = (pre' @ [45]) @ ds') = (pre @ [45] = pre' @ [45] \<and> ds = ds')"
    by (intro append_eq_append_conv) simp
  with p show ?thesis by blast
qed

lemma rx_match_hd:
  "runs r (0, s, Map.empty) \<noteq> [] \<Longrightarrow>
     \<exists>j t g. rx_match r s = Some (j, g) \<and> (j, t, g) \<in> set (runs r (0, s, Map.empty))"
  unfolding rx_match_def by (cases "runs r (0, s, Map.empty)") auto

lemma date_from_name_complete:
  assumes "10 \<notin> set pre" "length ds = 8" "\<forall>c \<in> set ds. isdecimal U c" "sq \<noteq> []"
    "\<forall>c \<in> set sq. isdecimal U c" "1 \<le> length ext" "length ext \<le> 5" "\<forall>c \<in> set ext. alnum c"
    "t = [] \<or> t = [10]" "\<not> isdecimal U 45"
  shows "\<exists>j g. rx_match (date_from_name U)
                 (pre @ [45] @ ds @ [45, 87, 65] @ sq @ [46] @ ext @ t) = Some (j, g)
           \<and> rx_group g 1 = ds"
proof -
  let ?f = "pre @ [45] @ ds @ [45, 87, 65] @ sq @ [46] @ ext @ t"
  from date_from_name_mem[OF assms(1-9)]
  have "runs (date_from_name U) (0, ?f, Map.empty) \<noteq> []" by auto
  from rx_match_hd[OF this] obtain j t' g where
    m: "rx_match (date_from_name U) ?f = Some (j, g)"
    and r: "(j, t', g) \<in> set (runs (date_from_name U) (0, ?f, Map.empty))" by blast
  from date_from_name_elem[OF r] obtain pre' ds' sq' ext' where
    d: "?f = pre' @ [45] @ ds' @ [45, 87, 65] @ sq' @ [46] @ ext' @ t'"
      "length ds' = 8" "\<forall>c \<in> set sq'. isdecimal U c" "1 \<le> length ext'"
      "\<forall>c \<in> set ext'. alnum c" "t' = [] \<or> t' = [10]" "rx_group g 1 = ds'" by blast
  have "ext \<noteq> []" "ext' \<noteq> []" using assms(6) d(4) by auto
  from date_from_name_unique[OF d(1) assms(2) d(2) assms(5) d(3) assms(10) this(1) assms(8)
      this(2) d(5) assms(9) d(6)]
  have "ds = ds'" .
  with m d(7) show ?thesis by simp
qed

lemma format_ymd_directives:
  "\<exists>rY rm rd. directive_rx U CHR ''Y'' = Some rY \<and> directive_rx U CHR ''m'' = Some rm
     \<and> directive_rx U CHR ''d'' = Some rd \<and> format_rx U False ''%Y%m%d'' = Some [rY, rm, rd]"
  by (simp add: directive_rx_def Let_def isspace_def cp_def)

lemma runs_directive_Y:
  "directive_rx U CHR ''Y'' = Some r \<Longrightarrow> (j, t, g') \<in> set (runs r (i, s, g)) \<Longrightarrow>
     \<exists>a b c d. s = a # b # c # d # t \<and> isdecimal U a \<and> isdecimal U b \<and> isdecimal U c
       \<and> isdecimal U d \<and> j = i + 4 \<and> g' = g(89 \<mapsto> [a, b, c, d])"
  by (auto simp: directive_rx_def Let_def cp_def split: list.splits if_splits)

lemma runs_directive_m:
  "directive_rx U CHR ''m'' = Some r \<Longrightarrow> (j, t, g') \<in> set (runs r (i, s, g)) \<Longrightarrow>
     (\<exists>e f. s = e # f # t \<and> month_digits e f \<and> j = i + 2 \<and> g' = g(109 \<mapsto> [e, f]))
     \<or> (\<exists>e. s = e # t \<and> j = i + 1 \<and> g' = g(109 \<mapsto> [e]))"
  by (auto simp: directive_rx_def Let_def cp_def chr_def in_range_def month_digits_def
        split: list.splits if_splits)

lemma runs_directive_d:
  "directive_rx U CHR ''d'' = Some r \<Longrightarrow> (j, t, g') \<in> set (runs r (i, s, g)) \<Longrightarrow>
     (\<exists>e f. s = e # f # t \<and> day_digits U e f \<and> j = i + 2 \<and> g' = g(100 \<mapsto> [e, f]))
     \<or> (\<exists>e. s = e # t \<and> j = i + 1 \<and> g' = g(100 \<mapsto> [e]))"
  by (auto simp: directive_rx_def Let_def cp_def chr_def in_range_def day_digits_def
        split: list.splits if_splits)



lemma ymd_match:
  assumes "isdecimal U a" "isdecimal U b" "isdecimal U c" "isdecimal U d"
    "month_digits e f" "day_digits U e' f'"
  shows "rx_match (seqs (the (format_rx U False ''%Y%m%d''))) [a, b, c, d, e, f, e', f']
      = Some (8, [89 \<mapsto> [a, b, c, d], 109 \<mapsto> [e, f], 100 \<mapsto> [e', f']])"
    using assms(1-6) unfolding month_digits_def day_digits_def
    by (elim disjE conjE)
       (simp_all add: directive_rx_def Let_def isspace_def cp_def chr_def in_range_def rx_match_def)


lemma ymd_found:
  "found_datetime U [89 \<mapsto> [a, b, c, d], 109 \<mapsto> [e, f], 100 \<mapsto> [e', f']]
      = \<lparr> year = to_int U [a, b, c, d], month = to_int U [e, f], day = to_int U [e', f'],
          hour = 0, minute = 0, second = 0, microsecond = 0 \<rparr>"
  by (simp add: found_datetime_def found_year_def found_hour_def num_group_def cp_def)

lemma strptime_ymd_complete:
  assumes "isdecimal U a" "isdecimal U b" "isdecimal U c" "isdecimal U d"
    "month_digits e f" "day_digits U e' f'"
    "valid_datetime \<lparr> year = to_int U [a, b, c, d], month = to_int U [e, f],
        day = to_int U [e', f'], hour = 0, minute = 0, second = 0, microsecond = 0 \<rparr>"
  shows "strptime U [a, b, c, d, e, f, e', f'] ''%Y%m%d''
     = Some \<lparr> year = to_int U [a, b, c, d], month = to_int U [e, f],
        day = to_int U [e', f'], hour = 0, minute = 0, second = 0, microsecond = 0 \<rparr>"
proof -
  from format_ymd_directives[of U] obtain rs where f: "format_rx U False ''%Y%m%d'' = Some rs"
    by blast
  have "rx_match (seqs rs) [a, b, c, d, e, f, e', f']
      = Some (8, [89 \<mapsto> [a, b, c, d], 109 \<mapsto> [e, f], 100 \<mapsto> [e', f']])"
    using ymd_match[OF assms(1-6)] unfolding f option.sel .
  then show ?thesis using assms(7) unfolding strptime_def f option.case
    by (simp add: ymd_found)
qed

lemma strptime_ymd_sound:
  assumes p: "strptime U ds ''%Y%m%d'' = Some dt" and l: "length ds = 8"
  shows "(\<forall>c \<in> set (take 4 ds). isdecimal U c) \<and> month_digits (ds ! 4) (ds ! 5)
     \<and> day_digits U (ds ! 6) (ds ! 7)
     \<and> dt = \<lparr> year = to_int U (take 4 ds), month = to_int U (take 2 (drop 4 ds)),
              day = to_int U (drop 6 ds), hour = 0, minute = 0, second = 0, microsecond = 0 \<rparr>
     \<and> valid_datetime dt"
proof -
  from format_ymd_directives[of U] obtain rY rm rd where
    dY: "directive_rx U CHR ''Y'' = Some rY" and dm: "directive_rx U CHR ''m'' = Some rm"
    and dd: "directive_rx U CHR ''d'' = Some rd"
    and f: "format_rx U False ''%Y%m%d'' = Some [rY, rm, rd]" by blast
  from p obtain j g0 where m: "rx_match (seqs [rY, rm, rd]) ds = Some (j, g0)"
    and j: "j = length ds" and v: "valid_datetime (found_datetime U g0)"
    and dt: "dt = found_datetime U g0"
    unfolding strptime_def f by (auto split: option.splits if_splits)
  from rx_match_elem[OF m] obtain t where
    "(j, t, g0) \<in> set (runs (seqs [rY, rm, rd]) (0, ds, Map.empty))" by blast
  then have "\<exists>m1 \<in> set (runs rY (0, ds, Map.empty)). \<exists>m2 \<in> set (runs rm m1).
      \<exists>m3 \<in> set (runs rd m2). (j, t, g0) \<in> set (runs Eps m3)"
    unfolding seqs.simps in_runs_Seq .
  then obtain m1 m2 m3 where r1: "m1 \<in> set (runs rY (0, ds, Map.empty))"
    and r2: "m2 \<in> set (runs rm m1)" and r3: "m3 \<in> set (runs rd m2)"
    and r4: "(j, t, g0) \<in> set (runs Eps m3)" by blast
  obtain i1 s1 g1 where m1: "m1 = (i1, s1, g1)" by (cases m1)
  obtain i2 s2 g2 where m2: "m2 = (i2, s2, g2)" by (cases m2)
  have m3: "m3 = (j, t, g0)" using r4 by simp
  from runs_directive_Y[OF dY r1[unfolded m1]] obtain a b c d where
    y: "ds = a # b # c # d # s1" "isdecimal U a" "isdecimal U b" "isdecimal U c" "isdecimal U d"
      "i1 = 4" "g1 = Map.empty(89 \<mapsto> [a, b, c, d])" by auto
  from runs_directive_m[OF dm r2[unfolded m1 m2]] have md:
    "(\<exists>e f. s1 = e # f # s2 \<and> month_digits e f \<and> i2 = i1 + 2 \<and> g2 = g1(109 \<mapsto> [e, f]))
     \<or> (\<exists>e. s1 = e # s2 \<and> i2 = i1 + 1 \<and> g2 = g1(109 \<mapsto> [e]))" .
  from runs_directive_d[OF dd r3[unfolded m2 m3]] have dd':
    "(\<exists>e f. s2 = e # f # t \<and> day_digits U e f \<and> j = i2 + 2 \<and> g0 = g2(100 \<mapsto> [e, f]))
     \<or> (\<exists>e. s2 = e # t \<and> j = i2 + 1 \<and> g0 = g2(100 \<mapsto> [e]))" .
  from md have "i2 = i1 + 2 \<or> i2 = i1 + 1" by auto
  moreover from dd' have "j = i2 + 2 \<or> j = i2 + 1" by auto
  ultimately have i2: "i2 = i1 + 2" and jj: "j = i2 + 2" using j l y(6) by auto
  from md i2 obtain e f where
    mo: "s1 = e # f # s2" "month_digits e f" "g2 = g1(109 \<mapsto> [e, f])" by auto
  from dd' jj obtain e' f' where
    da: "s2 = e' # f' # t" "day_digits U e' f'" "g0 = g2(100 \<mapsto> [e', f'])" by auto
  have t: "t = []" using l y(1) mo(1) da(1) by simp
  have ds: "ds = [a, b, c, d, e, f, e', f']" using y(1) mo(1) da(1) t by simp
  have g0: "g0 = [89 \<mapsto> [a, b, c, d], 109 \<mapsto> [e, f], 100 \<mapsto> [e', f']]"
    using y(7) mo(3) da(3) by simp
  have "found_datetime U g0
      = \<lparr> year = to_int U [a, b, c, d], month = to_int U [e, f], day = to_int U [e', f'],
          hour = 0, minute = 0, second = 0, microsecond = 0 \<rparr>"
    unfolding g0 by (rule ymd_found)
  with dt have dt': "dt = \<lparr> year = to_int U [a, b, c, d], month = to_int U [e, f],
      day = to_int U [e', f'], hour = 0, minute = 0, second = 0, microsecond = 0 \<rparr>" by simp
  have "valid_datetime dt" using v dt by simp
  moreover have "\<forall>c \<in> set (take 4 ds). isdecimal U c" using y(2-5) unfolding ds by simp
  moreover have "month_digits (ds ! 4) (ds ! 5)" using mo(2) unfolding ds by simp
  moreover have "day_digits U (ds ! 6) (ds ! 7)" using da(2) unfolding ds by simp
  moreover have "take 4 ds = [a, b, c, d]" "take 2 (drop 4 ds) = [e, f]" "drop 6 ds = [e', f']"
    unfolding ds by simp_all
  ultimately show ?thesis using dt' by simp
qed

lemma length_eight:
  "length ds = 8 \<Longrightarrow> \<exists>a b c d e f g h. ds = [a, b, c, d, e, f, g, h]"
  by (simp add: numeral_eq_Suc length_Suc_conv) blast

lemma name_date_sound:
  assumes "name_date U fname = Some d"
  shows "\<exists>pre ds sq ext t. fname = pre @ [45] @ ds @ [45, 87, 65] @ sq @ [46] @ ext @ t
           \<and> 10 \<notin> set pre \<and> length ds = 8 \<and> (\<forall>c \<in> set ds. isdecimal U c) \<and> sq \<noteq> []
           \<and> (\<forall>c \<in> set sq. isdecimal U c) \<and> 1 \<le> length ext \<and> length ext \<le> 5
           \<and> (\<forall>c \<in> set ext. alnum c) \<and> (t = [] \<or> t = [10])
           \<and> month_digits (ds ! 4) (ds ! 5) \<and> day_digits U (ds ! 6) (ds ! 7)
           \<and> d = digits_date U ds \<and> calendar_date d"
proof -
  from assms obtain j g dt where m: "rx_match (date_from_name U) fname = Some (j, g)"
    and p: "strptime U (rx_group g 1) ''%Y%m%d'' = Some dt" and d: "d = date_of dt"
    unfolding name_date_def by (auto split: option.splits)
  from rx_match_elem[OF m] obtain t where
    "(j, t, g) \<in> set (runs (date_from_name U) (0, fname, Map.empty))" by blast
  from date_from_name_elem[OF this] obtain pre ds sq ext where
    f: "fname = pre @ [45] @ ds @ [45, 87, 65] @ sq @ [46] @ ext @ t"
      "10 \<notin> set pre" "length ds = 8" "\<forall>c \<in> set ds. isdecimal U c" "sq \<noteq> []"
      "\<forall>c \<in> set sq. isdecimal U c" "1 \<le> length ext" "length ext \<le> 5"
      "\<forall>c \<in> set ext. alnum c" "t = [] \<or> t = [10]" and g: "rx_group g 1 = ds" by blast
  from strptime_ymd_sound[OF p[unfolded g] f(3)] have
    s: "month_digits (ds ! 4) (ds ! 5)" "day_digits U (ds ! 6) (ds ! 7)"
      "dt = \<lparr> year = to_int U (take 4 ds), month = to_int U (take 2 (drop 4 ds)),
              day = to_int U (drop 6 ds), hour = 0, minute = 0, second = 0, microsecond = 0 \<rparr>"
      "valid_datetime dt" by auto
  have dd: "d = digits_date U ds" unfolding d digits_date_def s(3) by (simp add: date_of_def)
  have "calendar_date (digits_date U ds)"
    using s(4) unfolding s(3) digits_date_def by (simp add: valid_datetime_def)
  with dd have "d = digits_date U ds \<and> calendar_date d" by simp
  with f s(1,2) show ?thesis by blast
qed

lemma name_date_complete:
  assumes "10 \<notin> set pre" "length ds = 8" "\<forall>c \<in> set ds. isdecimal U c" "sq \<noteq> []"
    "\<forall>c \<in> set sq. isdecimal U c" "1 \<le> length ext" "length ext \<le> 5" "\<forall>c \<in> set ext. alnum c"
    "t = [] \<or> t = [10]" "\<not> isdecimal U 45"
    and md: "month_digits (ds ! 4) (ds ! 5)" and dd: "day_digits U (ds ! 6) (ds ! 7)"
    and cd: "calendar_date (digits_date U ds)"
  shows "name_date U (pre @ [45] @ ds @ [45, 87, 65] @ sq @ [46] @ ext @ t)
           = Some (digits_date U ds)"
proof -
  from date_from_name_complete[OF assms(1-10)] obtain j g where
    m: "rx_match (date_from_name U) (pre @ [45] @ ds @ [45, 87, 65] @ sq @ [46] @ ext @ t)
          = Some (j, g)" and g: "rx_group g 1 = ds" by blast
  from length_eight[OF assms(2)] obtain a b c d e f e' f' where
    ds: "ds = [a, b, c, d, e, f, e', f']" by blast
  let ?dt = "\<lparr> year = to_int U [a, b, c, d], month = to_int U [e, f],
        day = to_int U [e', f'], hour = 0, minute = 0, second = 0, microsecond = 0 \<rparr>"
  have dec: "isdecimal U a" "isdecimal U b" "isdecimal U c" "isdecimal U d"
    using assms(3) unfolding ds by simp_all
  have md': "month_digits e f" using md unfolding ds by simp
  have dd': "day_digits U e' f'" using dd unfolding ds by simp
  have v: "valid_datetime ?dt"
    using cd unfolding ds digits_date_def by (simp add: valid_datetime_def)
  have "strptime U ds ''%Y%m%d'' = Some ?dt"
    unfolding ds by (rule strptime_ymd_complete[OF dec md' dd' v])
  moreover have "date_of ?dt = digits_date U ds"
    unfolding ds digits_date_def by (simp add: date_of_def)
  ultimately show ?thesis using g unfolding name_date_def m by simp
qed

lemma name_date_pdf: "name_date ascii_rt (u ''a.pdf'') = None"
  by (simp add: name_date_def date_from_name_def wa_tail_def alnum_def date_of_def
        str_eval rt_eval rx_eval time_eval)

lemma name_date_no_wa: "name_date ascii_rt (u ''IMG-20240305-0001.jpg'') = None"
  by (simp add: name_date_def date_from_name_def wa_tail_def alnum_def date_of_def
        str_eval rt_eval rx_eval time_eval)

lemma name_date_feb30: "name_date ascii_rt (u ''IMG-20240230-WA0001.jpg'') = None"
  by (simp add: name_date_def date_from_name_def wa_tail_def alnum_def date_of_def
        str_eval rt_eval rx_eval time_eval)

lemma name_date_month13: "name_date ascii_rt (u ''IMG-20241305-WA0001.jpg'') = None"
  by (simp add: name_date_def date_from_name_def wa_tail_def alnum_def date_of_def
        str_eval rt_eval rx_eval time_eval)

lemma name_date_0306: "name_date ascii_rt (u ''IMG-20240306-WA0007.jpg'') = Some (2024, 3, 6)"
  by (simp add: name_date_def date_from_name_def wa_tail_def alnum_def date_of_def
        str_eval rt_eval rx_eval time_eval)

lemma name_date_vid: "name_date ascii_rt (u ''VID-20240305-WA0002.mp4'') = Some (2024, 3, 5)"
  by (simp add: name_date_def date_from_name_def wa_tail_def alnum_def date_of_def
        str_eval rt_eval rx_eval time_eval)

lemma mixed_example:
  assumes "msg_text msg = u ''<Media omitted>''" "attachments msg = []"
    "date_of (timestamp msg) = (2024, 3, 5)"
  shows "fst (link_by_date ascii_rt mixed_catalog (msg, a))
           = (if a wa_name \<noteq> Some True then attach ascii_rt wa_name [wa_name] msg
              else if a (u ''VID-20240305-WA0002.mp4'') \<noteq> Some True
              then attach ascii_rt (u ''VID-20240305-WA0002.mp4'')
                     [u ''sub'', u ''VID-20240305-WA0002.mp4''] msg
              else msg)"
  using assms
  by (simp add: link_by_date_first_dated placeholder_omitted first_dated_def mixed_catalog_def
        wa_name_date name_date_pdf name_date_0306 name_date_vid)

lemma mixed_other_dates:
  "first_dated ascii_rt mixed_catalog a (2024, 3, 6)
     = (if a (u ''IMG-20240306-WA0007.jpg'') = Some True then None
        else Some (u ''IMG-20240306-WA0007.jpg'', [u ''IMG-20240306-WA0007.jpg'']))"
  "first_dated ascii_rt mixed_catalog a (2024, 3, 7) = None"
  by (simp_all add: first_dated_def mixed_catalog_def wa_name_date name_date_pdf name_date_0306
        name_date_vid)

text \<open>
  C7: the second pass is the first pass's result handed to \<open>link_by_date\<close>, message by
  message. It acts on a message only when the message has no attachment and its trimmed,
  lower-cased text is empty or holds one of the placeholder phrases, lower-cased, as a
  slice; it then attaches the first entry of the catalog that is not assigned and whose
  name encodes the date of the message, marks it, and attaches nothing more: at most one
  attachment comes from this pass. A message whose text is exactly the placeholder
  \<^verbatim>\<open><Media omitted>\<close>, dated 2024-03-05, with the catalog of the one file
  \<^verbatim>\<open>IMG-20240305-WA0001.jpg\<close>, acquires the file if and only if the file is not already
  assigned.

  A name encodes a date only if it is some characters other than a newline, a hyphen,
  eight decimal digits, \<^verbatim>\<open>-WA\<close>, at least one decimal digit, a full stop and one to five
  letters or digits of ASCII, up to a final newline; the fifth and sixth of the eight
  digits are a month as \<^verbatim>\<open>%m\<close> reads two characters, the last two a day as \<^verbatim>\<open>%d\<close> reads
  two; the date is the one the eight digits write, and it is a date of the calendar.
  Every such name encodes that date, provided the hyphen is not a decimal digit of the
  runtime. So \<^verbatim>\<open>a.pdf\<close>, \<^verbatim>\<open>IMG-20240305-0001.jpg\<close>, \<^verbatim>\<open>IMG-20240230-WA0001.jpg\<close> and
  \<^verbatim>\<open>IMG-20241305-WA0001.jpg\<close> encode no date, and in the catalog of four files the
  placeholder message of 2024-03-05 passes over \<^verbatim>\<open>a.pdf\<close> and the file of 2024-03-06, takes
  \<^verbatim>\<open>IMG-20240305-WA0001.jpg\<close> if it is not assigned, else \<^verbatim>\<open>VID-20240305-WA0002.mp4\<close> if
  that one is not assigned, else nothing. The entry chosen for a date is the one at the
  least index of the catalog that is not assigned and whose name encodes the date, and
  there is none exactly when every entry is assigned or encodes no or another date.
\<close>

theorem date_fallback:
  "link_by_date U media (msg, a) =
     (if attachments msg = [] \<and> is_placeholder U (msg_text msg)
      then (case first_dated U media a (date_of (timestamp msg)) of
              None \<Rightarrow> (msg, a)
            | Some (fname, p) \<Rightarrow> (attach U fname p msg, a(fname \<mapsto> True)))
      else (msg, a))
   \<and> (is_placeholder U s \<longleftrightarrow>
        lower U (strip s) = []
        \<or> (\<exists>tok \<in> set MEDIA_OMITTED_TOKENS.
              \<exists>pre post. lower U (strip s) = pre @ lower U tok @ post))
   \<and> length (attachments (fst (link_by_date U media (msg, a)))) \<le> length (attachments msg) + 1
   \<and> link_messages U media msgs
       = (case for_messages (link_by_text U media) msgs (unassigned media) of
            (msgs1, assigned1) \<Rightarrow> for_messages (link_by_date U media) msgs1 assigned1)
   \<and> (msg_text msg = u ''<Media omitted>'' \<and> attachments msg = []
        \<and> date_of (timestamp msg) = (2024, 3, 5) \<longrightarrow>
        fst (link_by_date ascii_rt wa_catalog (msg, a))
          = (if a wa_name = Some True then msg else attach ascii_rt wa_name [wa_name] msg))
   \<and> (name_date U name = Some d \<longrightarrow>
        (\<exists>pre ds sq ext t.
           name = pre @ u ''-'' @ ds @ u ''-WA'' @ sq @ u ''.'' @ ext @ t
           \<and> 10 \<notin> set pre \<and> length ds = 8 \<and> (\<forall>c \<in> set ds. isdecimal U c) \<and> sq \<noteq> []
           \<and> (\<forall>c \<in> set sq. isdecimal U c) \<and> 1 \<le> length ext \<and> length ext \<le> 5
           \<and> (\<forall>c \<in> set ext. alnum c) \<and> (t = [] \<or> t = [10])
           \<and> month_digits (ds ! 4) (ds ! 5) \<and> day_digits U (ds ! 6) (ds ! 7)
           \<and> d = digits_date U ds \<and> calendar_date d))
   \<and> (10 \<notin> set front \<and> length ds = 8 \<and> (\<forall>c \<in> set ds. isdecimal U c) \<and> sq \<noteq> []
        \<and> (\<forall>c \<in> set sq. isdecimal U c) \<and> 1 \<le> length ext \<and> length ext \<le> 5
        \<and> (\<forall>c \<in> set ext. alnum c) \<and> (t = [] \<or> t = [10])
        \<and> month_digits (ds ! 4) (ds ! 5) \<and> day_digits U (ds ! 6) (ds ! 7)
        \<and> calendar_date (digits_date U ds) \<and> \<not> isdecimal U (cp CHR ''-'') \<longrightarrow>
        name_date U (front @ u ''-'' @ ds @ u ''-WA'' @ sq @ u ''.'' @ ext @ t)
          = Some (digits_date U ds))
   \<and> name_date ascii_rt (u ''a.pdf'') = None
   \<and> name_date ascii_rt (u ''IMG-20240305-0001.jpg'') = None
   \<and> name_date ascii_rt (u ''IMG-20240230-WA0001.jpg'') = None
   \<and> name_date ascii_rt (u ''IMG-20241305-WA0001.jpg'') = None
   \<and> (msg_text msg = u ''<Media omitted>'' \<and> attachments msg = []
        \<and> date_of (timestamp msg) = (2024, 3, 5) \<longrightarrow>
        fst (link_by_date ascii_rt mixed_catalog (msg, a))
          = (if a wa_name \<noteq> Some True then attach ascii_rt wa_name [wa_name] msg
             else if a (u ''VID-20240305-WA0002.mp4'') \<noteq> Some True
             then attach ascii_rt (u ''VID-20240305-WA0002.mp4'')
                    [u ''sub'', u ''VID-20240305-WA0002.mp4''] msg
             else msg))
   \<and> first_dated ascii_rt mixed_catalog a (2024, 3, 6)
       = (if a (u ''IMG-20240306-WA0007.jpg'') = Some True then None
          else Some (u ''IMG-20240306-WA0007.jpg'', [u ''IMG-20240306-WA0007.jpg'']))
   \<and> first_dated ascii_rt mixed_catalog a (2024, 3, 7) = None
   \<and> (first_dated U media a d = Some e \<longleftrightarrow>
        (\<exists>i < length media. media ! i = e \<and> a (fst e) \<noteq> Some True
           \<and> name_date U (fst e) = Some d
           \<and> (\<forall>j < i. a (fst (media ! j)) = Some True
                         \<or> name_date U (fst (media ! j)) \<noteq> Some d)))
   \<and> (first_dated U media a d = None \<longleftrightarrow>
        (\<forall>e \<in> set media. a (fst e) = Some True \<or> name_date U (fst e) \<noteq> Some d))"
proof -
  have c: "u ''-'' = [45]" "u ''-WA'' = [45, 87, 65]" "u ''.'' = [46]" "cp CHR ''-'' = 45"
    by (simp_all add: u_def cp_def)
  have c1: "link_by_date U media (msg, a) =
     (if attachments msg = [] \<and> is_placeholder U (msg_text msg)
      then (case first_dated U media a (date_of (timestamp msg)) of
              None \<Rightarrow> (msg, a)
            | Some (fname, p) \<Rightarrow> (attach U fname p msg, a(fname \<mapsto> True)))
      else (msg, a))"
    by (rule link_by_date_first_dated)
  have c2: "is_placeholder U s \<longleftrightarrow>
        lower U (strip s) = []
        \<or> (\<exists>tok \<in> set MEDIA_OMITTED_TOKENS.
              \<exists>pre post. lower U (strip s) = pre @ lower U tok @ post)"
    by (rule is_placeholder_iff)
  have c4: "link_messages U media msgs
       = (case for_messages (link_by_text U media) msgs (unassigned media) of
            (msgs1, assigned1) \<Rightarrow> for_messages (link_by_date U media) msgs1 assigned1)"
    by (simp add: link_messages_def)
  have c5: "msg_text msg = u ''<Media omitted>'' \<and> attachments msg = []
        \<and> date_of (timestamp msg) = (2024, 3, 5) \<longrightarrow>
        fst (link_by_date ascii_rt wa_catalog (msg, a))
          = (if a wa_name = Some True then msg else attach ascii_rt wa_name [wa_name] msg)"
    using omitted_example[of msg a] by blast
  have c6: "name_date U name = Some d \<longrightarrow>
        (\<exists>pre ds sq ext t.
           name = pre @ u ''-'' @ ds @ u ''-WA'' @ sq @ u ''.'' @ ext @ t
           \<and> 10 \<notin> set pre \<and> length ds = 8 \<and> (\<forall>c \<in> set ds. isdecimal U c) \<and> sq \<noteq> []
           \<and> (\<forall>c \<in> set sq. isdecimal U c) \<and> 1 \<le> length ext \<and> length ext \<le> 5
           \<and> (\<forall>c \<in> set ext. alnum c) \<and> (t = [] \<or> t = [10])
           \<and> month_digits (ds ! 4) (ds ! 5) \<and> day_digits U (ds ! 6) (ds ! 7)
           \<and> d = digits_date U ds \<and> calendar_date d)"
    unfolding c by (rule impI) (rule name_date_sound)
  have c7: "10 \<notin> set front \<and> length ds = 8 \<and> (\<forall>c \<in> set ds. isdecimal U c) \<and> sq \<noteq> []
        \<and> (\<forall>c \<in> set sq. isdecimal U c) \<and> 1 \<le> length ext \<and> length ext \<le> 5
        \<and> (\<forall>c \<in> set ext. alnum c) \<and> (t = [] \<or> t = [10])
        \<and> month_digits (ds ! 4) (ds ! 5) \<and> day_digits U (ds ! 6) (ds ! 7)
        \<and> calendar_date (digits_date U ds) \<and> \<not> isdecimal U (cp CHR ''-'') \<longrightarrow>
        name_date U (front @ u ''-'' @ ds @ u ''-WA'' @ sq @ u ''.'' @ ext @ t)
          = Some (digits_date U ds)"
    unfolding c using name_date_complete[of front ds U sq ext t] by blast
  have c8: "msg_text msg = u ''<Media omitted>'' \<and> attachments msg = []
        \<and> date_of (timestamp msg) = (2024, 3, 5) \<longrightarrow>
        fst (link_by_date ascii_rt mixed_catalog (msg, a))
          = (if a wa_name \<noteq> Some True then attach ascii_rt wa_name [wa_name] msg
             else if a (u ''VID-20240305-WA0002.mp4'') \<noteq> Some True
             then attach ascii_rt (u ''VID-20240305-WA0002.mp4'')
                    [u ''sub'', u ''VID-20240305-WA0002.mp4''] msg
             else msg)"
    using mixed_example[of msg a] by blast
  have c9: "first_dated U media a d = Some e \<longleftrightarrow>
        (\<exists>i < length media. media ! i = e \<and> a (fst e) \<noteq> Some True
           \<and> name_date U (fst e) = Some d
           \<and> (\<forall>j < i. a (fst (media ! j)) = Some True
                         \<or> name_date U (fst (media ! j)) \<noteq> Some d))"
    unfolding first_dated_def find_Some_iff by auto
  have c10: "first_dated U media a d = None \<longleftrightarrow>
        (\<forall>e \<in> set media. a (fst e) = Some True \<or> name_date U (fst e) \<noteq> Some d)"
    unfolding first_dated_def find_None_iff by auto
  show ?thesis
    by (intro conjI c1 c2 link_by_date_one c4 c5 c6 c7 name_date_pdf name_date_no_wa
          name_date_feb30 name_date_month13 c8 mixed_other_dates c9 c10)
qed

theorem date_fallback_witness:
  "fst (link_by_date ascii_rt wa_catalog (omitted_msg, unassigned wa_catalog))
     = attach ascii_rt wa_name [wa_name] omitted_msg
   \<and> fst (link_by_date ascii_rt wa_catalog (omitted_msg, [wa_name \<mapsto> True])) = omitted_msg
   \<and> map (named wa_name) (fst (link_messages ascii_rt wa_catalog [omitted_msg, omitted_msg]))
       = [1, 0]
   \<and> (\<exists>pre ds sq ext t. wa_name = pre @ u ''-'' @ ds @ u ''-WA'' @ sq @ u ''.'' @ ext @ t
         \<and> length ds = 8 \<and> digits_date ascii_rt ds = (2024, 3, 5))
   \<and> name_date ascii_rt (u ''PTT-20231231-WA0042.opus'') = Some (2023, 12, 31)
   \<and> fst (link_by_date ascii_rt mixed_catalog (omitted_msg, [wa_name \<mapsto> True]))
       = attach ascii_rt (u ''VID-20240305-WA0002.mp4'')
           [u ''sub'', u ''VID-20240305-WA0002.mp4''] omitted_msg"
proof -
  note th = date_fallback [where U = ascii_rt and media = wa_catalog and msg = omitted_msg
      and s = "[]" and msgs = "[]" and name = wa_name and d = "(2024, 3, 5)"
      and front = "u ''PTT''" and ds = "u ''20231231''" and sq = "u ''0042''"
      and ext = "u ''opus''" and t = "[]"]
  have t: "msg_text omitted_msg = u ''<Media omitted>'' \<and> attachments omitted_msg = []
           \<and> date_of (timestamp omitted_msg) = (2024, 3, 5)"
    by (simp add: omitted_msg_def msg_at_def date_of_def at_hour_def)
  have "msg_text omitted_msg = u ''<Media omitted>'' \<and> attachments omitted_msg = []
        \<and> date_of (timestamp omitted_msg) = (2024, 3, 5) \<longrightarrow>
        fst (link_by_date ascii_rt wa_catalog (omitted_msg, a))
          = (if a wa_name = Some True then omitted_msg
             else attach ascii_rt wa_name [wa_name] omitted_msg)" for a
    using th [where a = a, THEN conjunct2, THEN conjunct2, THEN conjunct2, THEN conjunct2,
        THEN conjunct1] .
  with t have e: "fst (link_by_date ascii_rt wa_catalog (omitted_msg, a))
          = (if a wa_name = Some True then omitted_msg
             else attach ascii_rt wa_name [wa_name] omitted_msg)" for a
    by blast
  have "unassigned wa_catalog wa_name \<noteq> Some True"
    by (simp add: unassigned_def wa_catalog_def)
  then have w1: "fst (link_by_date ascii_rt wa_catalog (omitted_msg, unassigned wa_catalog))
       = attach ascii_rt wa_name [wa_name] omitted_msg"
    and w2: "fst (link_by_date ascii_rt wa_catalog (omitted_msg, [wa_name \<mapsto> True])) = omitted_msg"
    using e by simp_all
  note rest = th [where a = "[wa_name \<mapsto> True]", THEN conjunct2, THEN conjunct2, THEN conjunct2,
      THEN conjunct2, THEN conjunct2]
  have "name_date ascii_rt wa_name = Some (2024, 3, 5) \<longrightarrow>
        (\<exists>pre ds sq ext t.
           wa_name = pre @ u ''-'' @ ds @ u ''-WA'' @ sq @ u ''.'' @ ext @ t
           \<and> 10 \<notin> set pre \<and> length ds = 8 \<and> (\<forall>c \<in> set ds. isdecimal ascii_rt c) \<and> sq \<noteq> []
           \<and> (\<forall>c \<in> set sq. isdecimal ascii_rt c) \<and> 1 \<le> length ext \<and> length ext \<le> 5
           \<and> (\<forall>c \<in> set ext. alnum c) \<and> (t = [] \<or> t = [10])
           \<and> month_digits (ds ! 4) (ds ! 5) \<and> day_digits ascii_rt (ds ! 6) (ds ! 7)
           \<and> (2024, 3, 5) = digits_date ascii_rt ds \<and> calendar_date (2024, 3, 5))"
    using rest [THEN conjunct1] .
  with wa_name_date obtain pre ds sq ext t where
    "wa_name = pre @ u ''-'' @ ds @ u ''-WA'' @ sq @ u ''.'' @ ext @ t" "length ds = 8"
    "(2024, 3, 5) = digits_date ascii_rt ds"
    by blast
  then have w3: "\<exists>pre ds sq ext t. wa_name = pre @ u ''-'' @ ds @ u ''-WA'' @ sq @ u ''.'' @ ext @ t
         \<and> length ds = 8 \<and> digits_date ascii_rt ds = (2024, 3, 5)"
    by metis
  have h: "10 \<notin> set (u ''PTT'')" "length (u ''20231231'') = 8"
    "\<forall>c \<in> set (u ''20231231''). isdecimal ascii_rt c" "u ''0042'' \<noteq> []"
    "\<forall>c \<in> set (u ''0042''). isdecimal ascii_rt c" "1 \<le> length (u ''opus'')"
    "length (u ''opus'') \<le> 5" "\<forall>c \<in> set (u ''opus''). alnum c"
    "month_digits (u ''20231231'' ! 4) (u ''20231231'' ! 5)"
    "day_digits ascii_rt (u ''20231231'' ! 6) (u ''20231231'' ! 7)"
    "\<not> isdecimal ascii_rt (cp CHR ''-'')"
    by (simp_all add: u_def cp_def rt_eval alnum_def in_range_def month_digits_def
          day_digits_def)
  have dd: "digits_date ascii_rt (u ''20231231'') = (2023, 12, 31)"
    by (simp add: digits_date_def to_int_def str_eval rt_eval)
  have cd: "calendar_date (2023, 12, 31)"
    by (simp add: days_in_month_def)
  have n: "u ''PTT'' @ u ''-'' @ u ''20231231'' @ u ''-WA'' @ u ''0042'' @ u ''.'' @ u ''opus'' @ []
      = u ''PTT-20231231-WA0042.opus''"
    by (simp add: u_def)
  have "name_date ascii_rt
      (u ''PTT'' @ u ''-'' @ u ''20231231'' @ u ''-WA'' @ u ''0042'' @ u ''.'' @ u ''opus'' @ [])
      = Some (digits_date ascii_rt (u ''20231231''))"
    using rest [THEN conjunct2, THEN conjunct1] h cd unfolding dd by blast
  then have w4: "name_date ascii_rt (u ''PTT-20231231-WA0042.opus'') = Some (2023, 12, 31)"
    unfolding n dd .
  have "msg_text omitted_msg = u ''<Media omitted>'' \<and> attachments omitted_msg = []
        \<and> date_of (timestamp omitted_msg) = (2024, 3, 5) \<longrightarrow>
        fst (link_by_date ascii_rt mixed_catalog (omitted_msg, [wa_name \<mapsto> True]))
          = (if [wa_name \<mapsto> True] wa_name \<noteq> Some True
             then attach ascii_rt wa_name [wa_name] omitted_msg
             else if [wa_name \<mapsto> True] (u ''VID-20240305-WA0002.mp4'') \<noteq> Some True
             then attach ascii_rt (u ''VID-20240305-WA0002.mp4'')
                    [u ''sub'', u ''VID-20240305-WA0002.mp4''] omitted_msg
             else omitted_msg)"
    using rest [THEN conjunct2, THEN conjunct2, THEN conjunct2, THEN conjunct2, THEN conjunct2,
        THEN conjunct2, THEN conjunct1] .
  moreover have "wa_name \<noteq> u ''VID-20240305-WA0002.mp4''"
    by (simp add: wa_name_def u_def cp_def)
  ultimately have w5: "fst (link_by_date ascii_rt mixed_catalog (omitted_msg, [wa_name \<mapsto> True]))
       = attach ascii_rt (u ''VID-20240305-WA0002.mp4'')
           [u ''sub'', u ''VID-20240305-WA0002.mp4''] omitted_msg"
    using t by simp
  show ?thesis by (intro conjI w1 w2 two_omitted w3 w4 w5)
qed

end
